theory Spec2Isabelle
  imports Main "HOL-Library.Sublist"
begin

section \<open>Python values and exceptions\<close>

text \<open>
  Exceptions are values of the type \<open>error\<close>; a function that can raise returns
  \<open>error + 'a\<close>, with \<open>Inl\<close> for the exception.

  \<open>OutputParserException\<close> is the exception of \<open>langchain_core.exceptions\<close>: its message,
  its \<open>llm_output\<close> attribute and, when it was raised \<open>from\<close> another exception, that cause.

  In the output parser a text is a \<^typ>\<open>string\<close>, a list of code points below 256, and so
  is a sequence of bytes. The embedding models encode their texts, which fails on some
  code points, so there a text is a \<open>pystr\<close>: the list of its code points.
\<close>

datatype error =
    OutputParserException string "string option" "error option"
  | ValidationError string
  | JSONDecodeError string
  | IndexError
  | KeyError string
  | ValueError string
  | MemoryError
  | UnicodeEncodeError

fun exc_message :: "error \<Rightarrow> string" where
  "exc_message (OutputParserException msg out c) = msg"
| "exc_message (ValidationError msg) = msg"
| "exc_message (JSONDecodeError msg) = msg"
| "exc_message IndexError = ''list index out of range''"
| "exc_message (KeyError k) = k"
| "exc_message (ValueError msg) = msg"
| "exc_message MemoryError = ''Unable to allocate the array''"
| "exc_message UnicodeEncodeError = ''surrogates not allowed''"

section \<open>The fake embedding models (\<open>langchain_core/embeddings/fake.py\<close>)\<close>

subsection \<open>numpy's global random generator\<close>

text \<open>
  \<open>numpy.random\<close> keeps one generator for the whole process. Its state is threaded through
  every call as a value of type \<open>'g\<close>; a sample is a value of type \<open>'f\<close> (a float, which the
  model does not look into). The generator itself is a parameter: \<open>np_seed\<close> is the state
  \<open>np.random.seed(seed)\<close> installs, \<open>np_draw\<close> draws one sample from the normal distribution
  and gives the state after it, and \<open>np_capacity\<close> is the largest number of samples the
  process has the memory to hold in one array.
\<close>

record ('g, 'f) numpy_random =
  np_seed :: "int \<Rightarrow> 'g"
  np_draw :: "'g \<Rightarrow> 'f \<times> 'g"
  np_capacity :: nat

text \<open>\<open>np.random.seed(seed)\<close> accepts the seeds from 0 to \<open>2**32 - 1\<close> and raises ValueError
  for every other integer.\<close>

definition np_random_seed :: "('g, 'f) numpy_random \<Rightarrow> int \<Rightarrow> error + 'g" where
  "np_random_seed np seed =
     (if 0 \<le> seed \<and> seed < 2 ^ 32 then Inr (np_seed np seed)
      else Inl (ValueError ''Seed must be between 0 and 2**32 - 1''))"

fun draws :: "('g \<Rightarrow> 'f \<times> 'g) \<Rightarrow> nat \<Rightarrow> 'g \<Rightarrow> 'f list \<times> 'g" where
  "draws d 0 g = ([], g)"
| "draws d (Suc n) g =
     (case d g of (x, g1) \<Rightarrow> (case draws d n g1 of (xs, g2) \<Rightarrow> (x # xs, g2)))"

text \<open>
  \<open>list(np.random.normal(size=n))\<close>, on a 64-bit platform: numpy allocates an array of
  \<open>n\<close> floats of 8 bytes and fills it with \<open>n\<close> samples drawn one after the other. It
  raises ValueError for a negative \<open>n\<close>, for an \<open>n\<close> that is no array dimension (from
  \<open>2**63\<close> on) and for an array of \<open>2**63\<close> bytes or more, and MemoryError for an array
  the process has no memory for; it raises before it draws. The model keeps the class of
  each exception and a short form of its message.
\<close>

definition np_random_normal :: "('g, 'f) numpy_random \<Rightarrow> int \<Rightarrow> 'g \<Rightarrow> error + ('f list \<times> 'g)" where
  "np_random_normal np n g =
     (if n < 0 then Inl (ValueError ''negative dimensions are not allowed'')
      else if 2 ^ 63 \<le> n then Inl (ValueError ''Maximum allowed dimension exceeded'')
      else if 2 ^ 63 \<le> 8 * n then Inl (ValueError ''array is too big'')
      else if int (np_capacity np) < n then Inl MemoryError
      else Inr (draws (np_draw np) (nat n) g))"

subsection \<open>Texts, their UTF-8 encoding, and hashlib\<close>

text \<open>
  A Python \<open>str\<close> is the list of its code points, numbers below \<open>0x110000\<close>. The code
  points from \<open>0xD800\<close> to \<open>0xDFFF\<close> are the surrogates: a \<open>str\<close> can hold them, and UTF-8
  has no encoding for them. A number from \<open>0x110000\<close> on is no code point, and the model
  gives it no encoding either.
\<close>

type_synonym pystr = "nat list"

definition encodable :: "nat \<Rightarrow> bool" where
  "encodable cp = (cp < 0xD800 \<or> 0xDFFF < cp \<and> cp < 0x110000)"

definition utf8_bytes :: "nat \<Rightarrow> string" where
  "utf8_bytes cp =
     (if cp < 0x80 then [char_of cp]
      else if cp < 0x800 then [char_of (0xC0 + cp div 64), char_of (0x80 + cp mod 64)]
      else if cp < 0x10000 then
        [char_of (0xE0 + cp div 4096), char_of (0x80 + cp div 64 mod 64),
         char_of (0x80 + cp mod 64)]
      else
        [char_of (0xF0 + cp div 262144), char_of (0x80 + cp div 4096 mod 64),
         char_of (0x80 + cp div 64 mod 64), char_of (0x80 + cp mod 64)])"

text \<open>\<open>text.encode("utf-8")\<close>: the bytes of the code points in order; UnicodeEncodeError
  at the first code point that has no encoding.\<close>

fun encode_utf8 :: "pystr \<Rightarrow> error + string" where
  "encode_utf8 [] = Inr []"
| "encode_utf8 (cp # cps) =
     (if \<not> encodable cp then Inl UnicodeEncodeError
      else (case encode_utf8 cps of
              Inl e \<Rightarrow> Inl e
            | Inr bs \<Rightarrow> Inr (utf8_bytes cp @ bs)))"

text \<open>
  \<open>hashlib.sha256\<close> is a parameter: \<open>sha256_int b\<close> stands for
  \<open>int(hashlib.sha256(b).hexdigest(), 16)\<close>, the digest of the bytes \<open>b\<close> read as a number
  in base 16.
\<close>

record hashlib =
  sha256_int :: "string \<Rightarrow> nat"

subsection \<open>FakeEmbeddings\<close>

record FakeEmbeddings =
  fake_size :: int

definition FakeEmbeddings_get_embedding ::
  "('g, 'f) numpy_random \<Rightarrow> FakeEmbeddings \<Rightarrow> 'g \<Rightarrow> error + ('f list \<times> 'g)" where
  "FakeEmbeddings_get_embedding np self g = np_random_normal np (fake_size self) g"


definition FakeEmbeddings_embed_query ::
  "('g, 'f) numpy_random \<Rightarrow> FakeEmbeddings \<Rightarrow> pystr \<Rightarrow> 'g \<Rightarrow> error + ('f list \<times> 'g)" where
  "FakeEmbeddings_embed_query np self t g = FakeEmbeddings_get_embedding np self g"

subsection \<open>DeterministicFakeEmbedding\<close>

record DeterministicFakeEmbedding =
  det_size :: int

definition DeterministicFakeEmbedding_get_embedding ::
  "('g, 'f) numpy_random \<Rightarrow> DeterministicFakeEmbedding \<Rightarrow> int \<Rightarrow> 'g \<Rightarrow> error + ('f list \<times> 'g)" where
  "DeterministicFakeEmbedding_get_embedding np self seed g =
     (case np_random_seed np seed of
        Inl e \<Rightarrow> Inl e
      | Inr g1 \<Rightarrow> np_random_normal np (det_size self) g1)"

definition DeterministicFakeEmbedding_get_seed ::
  "hashlib \<Rightarrow> DeterministicFakeEmbedding \<Rightarrow> pystr \<Rightarrow> error + int" where
  "DeterministicFakeEmbedding_get_seed hl self t =
     (case encode_utf8 t of
        Inl e \<Rightarrow> Inl e
      | Inr b \<Rightarrow> Inr (int (sha256_int hl b) mod 10 ^ 8))"

fun DeterministicFakeEmbedding_embed_documents ::
  "('g, 'f) numpy_random \<Rightarrow> hashlib \<Rightarrow> DeterministicFakeEmbedding \<Rightarrow> pystr list \<Rightarrow> 'g
     \<Rightarrow> error + ('f list list \<times> 'g)" where
  "DeterministicFakeEmbedding_embed_documents np hl self [] g = Inr ([], g)"
| "DeterministicFakeEmbedding_embed_documents np hl self (t # texts) g =
     (case DeterministicFakeEmbedding_get_seed hl self t of
        Inl e \<Rightarrow> Inl e
      | Inr seed \<Rightarrow>
          (case DeterministicFakeEmbedding_get_embedding np self seed g of
             Inl e \<Rightarrow> Inl e
           | Inr (v, g1) \<Rightarrow>
               (case DeterministicFakeEmbedding_embed_documents np hl self texts g1 of
                  Inl e \<Rightarrow> Inl e
                | Inr (vs, g2) \<Rightarrow> Inr (v # vs, g2))))"

definition DeterministicFakeEmbedding_embed_query ::
  "('g, 'f) numpy_random \<Rightarrow> hashlib \<Rightarrow> DeterministicFakeEmbedding \<Rightarrow> pystr \<Rightarrow> 'g
     \<Rightarrow> error + ('f list \<times> 'g)" where
  "DeterministicFakeEmbedding_embed_query np hl self t g =
     (case DeterministicFakeEmbedding_get_seed hl self t of
        Inl e \<Rightarrow> Inl e
      | Inr seed \<Rightarrow> DeterministicFakeEmbedding_get_embedding np self seed g)"

text \<open>What a call returns to its caller, without the generator state it leaves behind.\<close>

definition returned :: "error + ('a \<times> 'g) \<Rightarrow> error + 'a" where
  "returned r = (case r of Inl e \<Rightarrow> Inl e | Inr (v, g) \<Rightarrow> Inr v)"

text \<open>The results of a list of calls, in order: the list of their values, or the first
  exception.\<close>

fun collect :: "(error + 'a) list \<Rightarrow> error + 'a list" where
  "collect [] = Inr []"
| "collect (r # rs) =
     (case r of
        Inl e \<Rightarrow> Inl e
      | Inr v \<Rightarrow> (case collect rs of Inl e \<Rightarrow> Inl e | Inr vs \<Rightarrow> Inr (v # vs)))"

section \<open>JSON values and \<open>json.dumps\<close>\<close>

text \<open>
  A decoded JSON value. A JSON object is a Python \<open>dict\<close>: its items in insertion order.
  Numbers are the integers (a Python \<open>int\<close> is unbounded); floats are left out.
\<close>

datatype json =
    JNull
  | JBool bool
  | JInt int
  | JStr string
  | JArr "json list"
  | JObj "(string \<times> json) list"

type_synonym pydict = "(string \<times> json) list"

text \<open>\<open>k in d\<close> and \<open>del d[k]\<close> on the items of a dict.\<close>

definition dict_contains :: "pydict \<Rightarrow> string \<Rightarrow> bool" where
  "dict_contains d k = (map_of d k \<noteq> None)"

definition dict_del :: "pydict \<Rightarrow> string \<Rightarrow> pydict" where
  "dict_del d k = filter (\<lambda>kv. fst kv \<noteq> k) d"

text \<open>\<open>str(n)\<close> for an integer: its decimal digits, after a minus sign when it is negative.\<close>

definition digit_char :: "nat \<Rightarrow> char" where
  "digit_char d = char_of (48 + d)"

fun digits :: "nat \<Rightarrow> string" where
  "digits n = (if n < 10 then [digit_char n] else digits (n div 10) @ [digit_char (n mod 10)])"

declare digits.simps [simp del]

definition str_int :: "int \<Rightarrow> string" where
  "str_int i = (if i < 0 then CHR ''-'' # digits (nat (- i)) else digits (nat i))"

text \<open>
  A string as \<open>json.dumps\<close> writes it (\<open>ensure_ascii=True\<close>): between double quotes, with
  the double quote, the backslash and the characters outside the printable ASCII range
  escaped.
\<close>

definition hex_digit :: "nat \<Rightarrow> char" where
  "hex_digit d = (if d < 10 then char_of (48 + d) else char_of (87 + d))"

definition escape_char :: "char \<Rightarrow> string" where
  "escape_char c =
     (if c = CHR 0x22 then [CHR 0x5C, CHR 0x22]
      else if c = CHR 0x5C then [CHR 0x5C, CHR 0x5C]
      else if c = CHR 0x0A then [CHR 0x5C, CHR ''n'']
      else if c = CHR 0x0D then [CHR 0x5C, CHR ''r'']
      else if c = CHR 0x09 then [CHR 0x5C, CHR ''t'']
      else if c = CHR 0x08 then [CHR 0x5C, CHR ''b'']
      else if c = CHR 0x0C then [CHR 0x5C, CHR ''f'']
      else if (of_char c :: nat) < 32 \<or> 126 < (of_char c :: nat)
        then [CHR 0x5C, CHR ''u'', CHR ''0'', CHR ''0'',
              hex_digit ((of_char c :: nat) div 16), hex_digit ((of_char c :: nat) mod 16)]
      else [c])"

definition encode_basestring_ascii :: "string \<Rightarrow> string" where
  "encode_basestring_ascii s = CHR 0x22 # concat (map escape_char s) @ [CHR 0x22]"

text \<open>\<open>sep.join(parts)\<close>.\<close>

fun str_join :: "string \<Rightarrow> string list \<Rightarrow> string" where
  "str_join sep [] = []"
| "str_join sep [x] = x"
| "str_join sep (x # y # ys) = x @ sep @ str_join sep (y # ys)"

text \<open>\<open>json.dumps(value)\<close> with its default separators: \<open>", "\<close> between items and
  \<open>": "\<close> between a key and its value.\<close>

fun json_dumps :: "json \<Rightarrow> string" where
  "json_dumps JNull = ''null''"
| "json_dumps (JBool b) = (if b then ''true'' else ''false'')"
| "json_dumps (JInt i) = str_int i"
| "json_dumps (JStr s) = encode_basestring_ascii s"
| "json_dumps (JArr xs) = ''['' @ str_join '', '' (map json_dumps xs) @ '']''"
| "json_dumps (JObj kvs) =
     ''{'' @ str_join '', ''
       (map (\<lambda>kv. encode_basestring_ascii (fst kv) @ '': '' @ json_dumps (snd kv)) kvs) @ ''}''"

section \<open>The pydantic output parser (\<open>langchain_core/output_parsers/pydantic.py\<close>)\<close>

subsection \<open>What the parser is given\<close>

text \<open>
  One generation of an LLM call (\<open>langchain_core.outputs.Generation\<close>): the parser reads its
  \<open>text\<close>.
\<close>

record Generation =
  gen_text :: string

text \<open>
  The objects of the Python heap that the parser can change are dicts; a reference to a dict
  is its index in the heap. A reference that a Python object holds is allocated: it is
  below the length of the heap.
\<close>

type_synonym heap = "pydict list"

definition heap_alloc :: "heap \<Rightarrow> pydict \<Rightarrow> nat \<times> heap" where
  "heap_alloc h d = (length h, h @ [d])"

definition heap_get :: "heap \<Rightarrow> nat \<Rightarrow> pydict" where
  "heap_get h r = h ! r"

definition heap_set :: "heap \<Rightarrow> nat \<Rightarrow> pydict \<Rightarrow> heap" where
  "heap_set h r d = h[r := d]"

text \<open>
  The class held in \<open>pydantic_object\<close>, as far as the parser uses it. The validation methods
  belong to the pydantic library and are parameters: they return the validated object of
  type \<open>'o\<close> or raise. \<open>schema_ref\<close> is the reference \<open>cls.schema()\<close> returns: pydantic keeps
  the schema dict of a class and hands out the same dict on every call.
\<close>

record 'o pydantic_class =
  is_v2_model :: bool
  is_v1_model :: bool
  cls_name :: string
  cls_class :: string
  model_validate :: "json \<Rightarrow> error + 'o"
  parse_obj :: "json \<Rightarrow> error + 'o"
  schema_ref :: nat

text \<open>
  What the module imports from the rest of \<open>langchain_core\<close> and from \<open>json\<close>: the constant
  \<open>PYDANTIC_MAJOR_VERSION\<close>, and the JSON decoders the base class \<open>JsonOutputParser\<close> uses, a
  strict one that raises on a text that is not JSON and a best-effort one for a text that
  stops early.
\<close>

record module_imports =
  PYDANTIC_MAJOR_VERSION :: int
  json_loads :: "string \<Rightarrow> error + json"
  parse_partial_json :: "string \<Rightarrow> json option"

record 'o PydanticOutputParser =
  pydantic_object :: "'o pydantic_class"

subsection \<open>The base class\<close>

text \<open>
  Modelled from the spec: \<open>JsonOutputParser.parse_result\<close> and \<open>JsonOutputParser.parse\<close>
  (\<open>langchain_core/output_parsers/json.py\<close>) are called through \<open>super()\<close> and are not among
  the source files. The spec: of a list of candidate generations the first is used; the
  text is decoded as JSON, and a decode failure gives a failure that carries the original
  text and the underlying decode error; in partial mode a text that stops early may give
  the best-effort partial object decoded so far. An empty result has no first generation:
  \<open>result[0]\<close> raises IndexError.
\<close>

definition JsonOutputParser_parse_result ::
  "module_imports \<Rightarrow> Generation list \<Rightarrow> bool \<Rightarrow> error + json" where
  "JsonOutputParser_parse_result env result partial =
     (case result of
        [] \<Rightarrow> Inl IndexError
      | g # _ \<Rightarrow>
          (case (if partial then parse_partial_json env (gen_text g) else None) of
             Some obj \<Rightarrow> Inr obj
           | None \<Rightarrow>
               (case json_loads env (gen_text g) of
                  Inl e \<Rightarrow>
                    Inl (OutputParserException (''Invalid json output: '' @ gen_text g)
                           (Some (gen_text g)) (Some e))
                | Inr obj \<Rightarrow> Inr obj)))"

text \<open>
  Modelled from the spec: \<open>JsonOutputParser.parse\<close> treats a raw text as the only
  generation of a result and hands it to the \<open>parse_result\<close> of the parser it is called on.
\<close>

definition JsonOutputParser_parse ::
  "(Generation list \<Rightarrow> bool \<Rightarrow> error + 'a) \<Rightarrow> string \<Rightarrow> error + 'a" where
  "JsonOutputParser_parse self_parse_result t = self_parse_result [\<lparr>gen_text = t\<rparr>] False"

subsection \<open>PydanticOutputParser\<close>

definition PydanticOutputParser_parser_exception ::
  "'o PydanticOutputParser \<Rightarrow> error \<Rightarrow> json \<Rightarrow> error" where
  "PydanticOutputParser_parser_exception self e json_object =
     (let json_string = json_dumps json_object;
          name = cls_name (pydantic_object self);
          msg = ''Failed to parse '' @ name @ '' from completion '' @ json_string @
                ''. Got: '' @ exc_message e
      in OutputParserException msg (Some json_string) None)"

definition PydanticOutputParser_parse_obj ::
  "module_imports \<Rightarrow> 'o PydanticOutputParser \<Rightarrow> json \<Rightarrow> error + 'o" where
  "PydanticOutputParser_parse_obj env self obj =
     (if PYDANTIC_MAJOR_VERSION env = 2 then
        (case (if is_v2_model (pydantic_object self)
                 then model_validate (pydantic_object self) obj
               else if is_v1_model (pydantic_object self)
                 then parse_obj (pydantic_object self) obj
               else Inl (OutputParserException
                      (''Unsupported model version for PydanticOutputParser: '' @
                       replicate 28 CHR '' '' @ cls_class (pydantic_object self)) None None)) of
           Inl (ValidationError m) \<Rightarrow>
             Inl (PydanticOutputParser_parser_exception self (ValidationError m) obj)
         | r \<Rightarrow> r)
      else
        (case parse_obj (pydantic_object self) obj of
           Inl (ValidationError m) \<Rightarrow>
             Inl (PydanticOutputParser_parser_exception self (ValidationError m) obj)
         | r \<Rightarrow> r))"

text \<open>\<open>parse_result\<close> calls \<open>super().parse_result(result)\<close>: the base class runs with its
  default \<open>partial=False\<close>, whatever \<open>partial\<close> the caller gave.\<close>

definition PydanticOutputParser_parse_result ::
  "module_imports \<Rightarrow> 'o PydanticOutputParser \<Rightarrow> Generation list \<Rightarrow> bool \<Rightarrow> error + 'o" where
  "PydanticOutputParser_parse_result env self result partial =
     (case JsonOutputParser_parse_result env result False of
        Inl e \<Rightarrow> Inl e
      | Inr json_object \<Rightarrow> PydanticOutputParser_parse_obj env self json_object)"

definition PydanticOutputParser_parse ::
  "module_imports \<Rightarrow> 'o PydanticOutputParser \<Rightarrow> string \<Rightarrow> error + 'o" where
  "PydanticOutputParser_parse env self t =
     JsonOutputParser_parse (PydanticOutputParser_parse_result env self) t"

subsection \<open>Format instructions\<close>

definition PYDANTIC_FORMAT_INSTRUCTIONS :: string where
  \<open>PYDANTIC_FORMAT_INSTRUCTIONS =
     ''The output should be formatted as a JSON instance that conforms to the JSON schema below.\<newline>'' @
     ''\<newline>'' @
     ''As an example, for the schema {{"properties": {{"foo": {{"title": "Foo", "description": "a list of strings", "type": "array", "items": {{"type": "string"}}}}}}, "required": ["foo"]}}\<newline>'' @
     ''the object {{"foo": ["bar", "baz"]}} is a well-formatted instance of the schema. The object {{"properties": {{"foo": ["bar", "baz"]}}}} is not well-formatted.\<newline>'' @
     ''\<newline>'' @
     ''Here is the output schema:\<newline>'' @
     ''```\<newline>'' @
     ''{schema}\<newline>'' @
     ''```''\<close>

text \<open>
  \<open>template.format(schema=value)\<close>: a doubled brace stands for one brace, \<open>{schema}\<close> for the
  value, which is not read again; any other field is a KeyError and a single brace a
  ValueError.
\<close>

function str_format :: "string \<Rightarrow> string \<Rightarrow> error + string" where
  "str_format [] v = Inr []"
| "str_format (c # cs) v =
     (if c = CHR ''{'' then
        (if cs = []
           then Inl (ValueError ''Single '{' encountered in format string'')
         else if take 1 cs = ''{''
           then (case str_format (drop 1 cs) v of Inl e \<Rightarrow> Inl e | Inr r \<Rightarrow> Inr (CHR ''{'' # r))
         else if CHR ''}'' \<notin> set cs
           then Inl (ValueError ''expected '}' before end of string'')
         else if takeWhile (\<lambda>x. x \<noteq> CHR ''}'') cs = ''schema''
           then (case str_format (drop 1 (dropWhile (\<lambda>x. x \<noteq> CHR ''}'') cs)) v of
                   Inl e \<Rightarrow> Inl e | Inr r \<Rightarrow> Inr (v @ r))
         else Inl (KeyError (takeWhile (\<lambda>x. x \<noteq> CHR ''}'') cs)))
      else if c = CHR ''}'' then
        (if take 1 cs = ''}''
           then (case str_format (drop 1 cs) v of Inl e \<Rightarrow> Inl e | Inr r \<Rightarrow> Inr (CHR ''}'' # r))
         else Inl (ValueError ''Single '}' encountered in format string''))
      else (case str_format cs v of Inl e \<Rightarrow> Inl e | Inr r \<Rightarrow> Inr (c # r)))"
  by pat_completeness auto
termination
proof (relation "measure (\<lambda>(t, v). length t)")
  fix c :: char and cs v :: string
  have "length (dropWhile (\<lambda>x. x \<noteq> CHR ''}'') cs) \<le> length cs"
    by (rule length_dropWhile_le)
  then show "((drop 1 (dropWhile (\<lambda>x. x \<noteq> CHR ''}'') cs), v), (c # cs, v))
      \<in> measure (\<lambda>(t, v). length t)"
    by simp
qed auto

text \<open>
  \<open>get_format_instructions\<close> reads the schema dict of the class, builds a new dict with the
  same items, deletes \<open>"title"\<close> and \<open>"type"\<close> from the new dict, and formats the template
  with its JSON text. It returns the string and the heap it leaves.
\<close>

definition PydanticOutputParser_get_format_instructions ::
  "'o PydanticOutputParser \<Rightarrow> heap \<Rightarrow> (error + string) \<times> heap" where
  "PydanticOutputParser_get_format_instructions self h =
     (let (schema, h1) = heap_alloc h (heap_get h (schema_ref (pydantic_object self)));
          reduced_schema = schema;
          h2 = (if dict_contains (heap_get h1 reduced_schema) ''title''
                then heap_set h1 reduced_schema (dict_del (heap_get h1 reduced_schema) ''title'')
                else h1);
          h3 = (if dict_contains (heap_get h2 reduced_schema) ''type''
                then heap_set h2 reduced_schema (dict_del (heap_get h2 reduced_schema) ''type'')
                else h2);
          schema_str = json_dumps (JObj (heap_get h3 reduced_schema))
      in (str_format PYDANTIC_FORMAT_INSTRUCTIONS schema_str, h3))"

text \<open>The template before and after its \<open>{schema}\<close> field, with every doubled brace
  written once: what \<open>format\<close> puts around the value.\<close>

definition format_instructions_head :: string where
  \<open>format_instructions_head =
     ''The output should be formatted as a JSON instance that conforms to the JSON schema below.\<newline>'' @
     ''\<newline>'' @
     ''As an example, for the schema {"properties": {"foo": {"title": "Foo", "description": "a list of strings", "type": "array", "items": {"type": "string"}}}, "required": ["foo"]}\<newline>'' @
     ''the object {"foo": ["bar", "baz"]} is a well-formatted instance of the schema. The object {"properties": {"foo": ["bar", "baz"]}} is not well-formatted.\<newline>'' @
     ''\<newline>'' @
     ''Here is the output schema:\<newline>'' @
     ''```\<newline>''\<close>

definition format_instructions_tail :: string where
  \<open>format_instructions_tail = ''\<newline>```''\<close>

section \<open>A strict JSON decoder\<close>

text \<open>
  Modelled from the spec: the decoder behind "attempt to decode the text as JSON"
  (\<open>json.loads\<close>, which is not part of the repository) on the values of \<^typ>\<open>json\<close>: JSON
  texts whose numbers are integers and whose strings hold code points below 256. A text
  outside this fragment, a number with a fraction or an exponent or an escape \<open>\uXXXX\<close>
  from 256 on, is reported like a text that is not JSON. The scanners return the value
  and the rest of the text, or \<open>None\<close>. The nesting scanners count down a fuel that
  \<open>json_decode\<close> sets to more than the length of the text.
\<close>

definition is_ws :: "char \<Rightarrow> bool" where
  "is_ws c = (c = CHR '' '' \<or> c = CHR 0x09 \<or> c = CHR 0x0A \<or> c = CHR 0x0D)"

definition skip_ws :: "string \<Rightarrow> string" where
  "skip_ws s = dropWhile is_ws s"

definition is_digit :: "char \<Rightarrow> bool" where
  "is_digit c = (48 \<le> (of_char c :: nat) \<and> (of_char c :: nat) \<le> 57)"

definition digit_val :: "char \<Rightarrow> nat" where
  "digit_val c = of_char c - 48"

definition hex_val :: "char \<Rightarrow> nat option" where
  "hex_val c =
     (let n = (of_char c :: nat) in
      if 48 \<le> n \<and> n \<le> 57 then Some (n - 48)
      else if 97 \<le> n \<and> n \<le> 102 then Some (n - 87)
      else if 65 \<le> n \<and> n \<le> 70 then Some (n - 55)
      else None)"

definition hex4 :: "char \<Rightarrow> char \<Rightarrow> char \<Rightarrow> char \<Rightarrow> nat option" where
  "hex4 a b c d =
     (case (hex_val a, hex_val b, hex_val c, hex_val d) of
        (Some w, Some x, Some y, Some z) \<Rightarrow> Some (((w * 16 + x) * 16 + y) * 16 + z)
      | _ \<Rightarrow> None)"

definition unescape :: "char \<Rightarrow> char option" where
  "unescape e =
     (if e = CHR 0x22 then Some (CHR 0x22)
      else if e = CHR 0x5C then Some (CHR 0x5C)
      else if e = CHR ''/'' then Some (CHR ''/'')
      else if e = CHR ''b'' then Some (CHR 0x08)
      else if e = CHR ''f'' then Some (CHR 0x0C)
      else if e = CHR ''n'' then Some (CHR 0x0A)
      else if e = CHR ''r'' then Some (CHR 0x0D)
      else if e = CHR ''t'' then Some (CHR 0x09)
      else None)"

definition cons_fst :: "'a \<Rightarrow> ('a list \<times> 'b) option \<Rightarrow> ('a list \<times> 'b) option" where
  "cons_fst x r = (case r of None \<Rightarrow> None | Some (xs, rest) \<Rightarrow> Some (x # xs, rest))"

fun scan_string :: "string \<Rightarrow> (string \<times> string) option" where
  "scan_string [] = None"
| "scan_string (c # cs) =
     (if c = CHR 0x22 then Some ([], cs)
      else if c = CHR 0x5C then
        (case cs of
           [] \<Rightarrow> None
         | e # r \<Rightarrow>
             if e = CHR ''u'' then
               (case r of
                  w # x # y # z # r' \<Rightarrow>
                    (case hex4 w x y z of
                       None \<Rightarrow> None
                     | Some n \<Rightarrow> if n < 256 then cons_fst (char_of n) (scan_string r') else None)
                | _ \<Rightarrow> None)
             else
               (case unescape e of
                  None \<Rightarrow> None
                | Some x \<Rightarrow> cons_fst x (scan_string r)))
      else if (of_char c :: nat) < 32 then None
      else cons_fst c (scan_string cs))"

definition digits_val :: "string \<Rightarrow> nat" where
  "digits_val ds = foldl (\<lambda>a d. 10 * a + digit_val d) 0 ds"

definition scan_digits :: "string \<Rightarrow> (nat \<times> string) option" where
  "scan_digits s =
     (case s of
        [] \<Rightarrow> None
      | c # cs \<Rightarrow>
          if c = CHR ''0'' then Some (0, cs)
          else if is_digit c then Some (digits_val (takeWhile is_digit s), dropWhile is_digit s)
          else None)"

definition scan_number :: "string \<Rightarrow> (json \<times> string) option" where
  "scan_number s =
     (case s of
        [] \<Rightarrow> None
      | c # cs \<Rightarrow>
          if c = CHR ''-'' then
            (case scan_digits cs of None \<Rightarrow> None | Some (n, rest) \<Rightarrow> Some (JInt (- int n), rest))
          else
            (case scan_digits s of None \<Rightarrow> None | Some (n, rest) \<Rightarrow> Some (JInt (int n), rest)))"

text \<open>\<open>d[k] = v\<close>: a key that is already there keeps its place; and \<open>dict(pairs)\<close>.\<close>

definition dict_set :: "pydict \<Rightarrow> string \<Rightarrow> json \<Rightarrow> pydict" where
  "dict_set d k v =
     (if dict_contains d k then map (\<lambda>kv. if fst kv = k then (k, v) else kv) d
      else d @ [(k, v)])"

definition dict_of_pairs :: "(string \<times> json) list \<Rightarrow> pydict" where
  "dict_of_pairs ps = foldl (\<lambda>d kv. dict_set d (fst kv) (snd kv)) [] ps"

definition map_fst :: "('a \<Rightarrow> 'c) \<Rightarrow> ('a \<times> 'b) option \<Rightarrow> ('c \<times> 'b) option" where
  "map_fst f r = (case r of None \<Rightarrow> None | Some (x, rest) \<Rightarrow> Some (f x, rest))"

fun scan_value :: "nat \<Rightarrow> string \<Rightarrow> (json \<times> string) option"
and scan_items :: "nat \<Rightarrow> string \<Rightarrow> (json list \<times> string) option"
and scan_members :: "nat \<Rightarrow> string \<Rightarrow> ((string \<times> json) list \<times> string) option" where
  "scan_value 0 s = None"
| "scan_value (Suc n) s =
     (case skip_ws s of
        [] \<Rightarrow> None
      | c # cs \<Rightarrow>
          if c = CHR 0x22 then map_fst JStr (scan_string cs)
          else if c = CHR ''['' then
            (case skip_ws cs of
               [] \<Rightarrow> None
             | d # ds \<Rightarrow> if d = CHR '']'' then Some (JArr [], ds) else map_fst JArr (scan_items n cs))
          else if c = CHR ''{'' then
            (case skip_ws cs of
               [] \<Rightarrow> None
             | d # ds \<Rightarrow>
                 if d = CHR ''}'' then Some (JObj [], ds)
                 else map_fst (\<lambda>ps. JObj (dict_of_pairs ps)) (scan_members n cs))
          else if take 4 (c # cs) = ''null'' then Some (JNull, drop 4 (c # cs))
          else if take 4 (c # cs) = ''true'' then Some (JBool True, drop 4 (c # cs))
          else if take 5 (c # cs) = ''false'' then Some (JBool False, drop 5 (c # cs))
          else scan_number (c # cs))"
| "scan_items 0 s = None"
| "scan_items (Suc n) s =
     (case scan_value n s of
        None \<Rightarrow> None
      | Some (v, r) \<Rightarrow>
          (case skip_ws r of
             [] \<Rightarrow> None
           | c # cs \<Rightarrow>
               if c = CHR '','' then cons_fst v (scan_items n cs)
               else if c = CHR '']'' then Some ([v], cs)
               else None))"
| "scan_members 0 s = None"
| "scan_members (Suc n) s =
     (case skip_ws s of
        [] \<Rightarrow> None
      | q # r0 \<Rightarrow>
          if q \<noteq> CHR 0x22 then None
          else
            (case scan_string r0 of
               None \<Rightarrow> None
             | Some (k, r1) \<Rightarrow>
                 (case skip_ws r1 of
                    [] \<Rightarrow> None
                  | c # r2 \<Rightarrow>
                      if c \<noteq> CHR '':'' then None
                      else
                        (case scan_value n r2 of
                           None \<Rightarrow> None
                         | Some (v, r3) \<Rightarrow>
                             (case skip_ws r3 of
                                [] \<Rightarrow> None
                              | d # r4 \<Rightarrow>
                                  if d = CHR '','' then cons_fst (k, v) (scan_members n r4)
                                  else if d = CHR ''}'' then Some ([(k, v)], r4)
                                  else None)))))"

definition json_decode :: "string \<Rightarrow> error + json" where
  "json_decode s =
     (case scan_value (Suc (length s)) s of
        None \<Rightarrow> Inl (JSONDecodeError ''Expecting value'')
      | Some (v, rest) \<Rightarrow>
          if skip_ws rest = [] then Inr v else Inl (JSONDecodeError ''Extra data''))"

section \<open>Target schemas\<close>

text \<open>
  Modelled from the spec: the target schema, "a declarative description of expected output
  fields (name, type, required/optional, nested structure)", and its validation, "attempt
  to construct the target schema's object from the decoded structure" (the pydantic
  library is not part of the repository). A field is its name, its type and whether it is
  required. The validated object holds the fields of the schema that the decoded object
  has, in the order of the schema; a required field that is missing and a value of the
  wrong type are validation errors; a missing optional field is left out.
\<close>

datatype field_type =
    TString
  | TInteger
  | TBoolean
  | TArray field_type
  | TObject "(string \<times> field_type \<times> bool) list"

record schema =
  schema_name :: string
  schema_fields :: "(string \<times> field_type \<times> bool) list"

fun validate_value :: "field_type \<Rightarrow> json \<Rightarrow> error + json"
and validate_items :: "field_type \<Rightarrow> json list \<Rightarrow> error + json list"
and validate_fields :: "(string \<times> field_type \<times> bool) list \<Rightarrow> pydict \<Rightarrow> error + pydict" where
  "validate_value TString j =
     (case j of JStr s \<Rightarrow> Inr j | _ \<Rightarrow> Inl (ValidationError ''str type expected''))"
| "validate_value TInteger j =
     (case j of JInt i \<Rightarrow> Inr j | _ \<Rightarrow> Inl (ValidationError ''value is not a valid integer''))"
| "validate_value TBoolean j =
     (case j of JBool b \<Rightarrow> Inr j | _ \<Rightarrow> Inl (ValidationError ''value could not be parsed to a boolean''))"
| "validate_value (TArray t) j =
     (case j of
        JArr xs \<Rightarrow> (case validate_items t xs of Inl e \<Rightarrow> Inl e | Inr ys \<Rightarrow> Inr (JArr ys))
      | _ \<Rightarrow> Inl (ValidationError ''value is not a valid list''))"
| "validate_value (TObject fs) j =
     (case j of
        JObj kvs \<Rightarrow> (case validate_fields fs kvs of Inl e \<Rightarrow> Inl e | Inr ob \<Rightarrow> Inr (JObj ob))
      | _ \<Rightarrow> Inl (ValidationError ''value is not a valid dict''))"
| "validate_items t [] = Inr []"
| "validate_items t (x # xs) =
     (case validate_value t x of
        Inl e \<Rightarrow> Inl e
      | Inr y \<Rightarrow> (case validate_items t xs of Inl e \<Rightarrow> Inl e | Inr ys \<Rightarrow> Inr (y # ys)))"
| "validate_fields [] kvs = Inr []"
| "validate_fields (f # fs) kvs =
     (case map_of kvs (fst f) of
        None \<Rightarrow>
          if snd (snd f) then Inl (ValidationError (fst f @ '': field required''))
          else validate_fields fs kvs
      | Some v \<Rightarrow>
          (case validate_value (fst (snd f)) v of
             Inl e \<Rightarrow> Inl e
           | Inr y \<Rightarrow>
               (case validate_fields fs kvs of Inl e \<Rightarrow> Inl e | Inr ob \<Rightarrow> Inr ((fst f, y) # ob))))"

definition schema_validate :: "schema \<Rightarrow> json \<Rightarrow> error + pydict" where
  "schema_validate S j =
     (case j of
        JObj kvs \<Rightarrow> validate_fields (schema_fields S) kvs
      | _ \<Rightarrow> Inl (ValidationError ''value is not a valid dict''))"

text \<open>An object conforms to a list of fields when it holds, in the order of the schema,
  a value of the right type for every required field and for some of the optional ones,
  and nothing else.\<close>

fun conforms_value :: "field_type \<Rightarrow> json \<Rightarrow> bool"
and conforms_items :: "field_type \<Rightarrow> json list \<Rightarrow> bool"
and conforms_fields :: "(string \<times> field_type \<times> bool) list \<Rightarrow> pydict \<Rightarrow> bool" where
  "conforms_value TString j = (case j of JStr s \<Rightarrow> True | _ \<Rightarrow> False)"
| "conforms_value TInteger j = (case j of JInt i \<Rightarrow> True | _ \<Rightarrow> False)"
| "conforms_value TBoolean j = (case j of JBool b \<Rightarrow> True | _ \<Rightarrow> False)"
| "conforms_value (TArray t) j = (case j of JArr xs \<Rightarrow> conforms_items t xs | _ \<Rightarrow> False)"
| "conforms_value (TObject fs) j = (case j of JObj ob \<Rightarrow> conforms_fields fs ob | _ \<Rightarrow> False)"
| "conforms_items t [] = True"
| "conforms_items t (x # xs) = (conforms_value t x \<and> conforms_items t xs)"
| "conforms_fields [] ob = (ob = [])"
| "conforms_fields (f # fs) ob =
     (case ob of
        [] \<Rightarrow> \<not> snd (snd f) \<and> conforms_fields fs []
      | kv # ob' \<Rightarrow>
          if fst kv = fst f
            then conforms_value (fst (snd f)) (snd kv) \<and> conforms_fields fs ob'
          else \<not> snd (snd f) \<and> conforms_fields fs ob)"

text \<open>The field names of a schema are distinct, at every level.\<close>

fun wf_type :: "field_type \<Rightarrow> bool"
and wf_fields :: "(string \<times> field_type \<times> bool) list \<Rightarrow> bool" where
  "wf_type TString = True"
| "wf_type TInteger = True"
| "wf_type TBoolean = True"
| "wf_type (TArray t) = wf_type t"
| "wf_type (TObject fs) = wf_fields fs"
| "wf_fields [] = True"
| "wf_fields (f # fs) = (fst f \<notin> fst ` set fs \<and> wf_type (fst (snd f)) \<and> wf_fields fs)"

definition conforms :: "schema \<Rightarrow> pydict \<Rightarrow> bool" where
  "conforms S ob = conforms_fields (schema_fields S) ob"

text \<open>The class of a schema: a pydantic v2 model or a pydantic v1 model whose validation
  is the one of the schema, and whose schema dict is at the reference \<open>r\<close>.\<close>

definition schema_class :: "schema \<Rightarrow> bool \<Rightarrow> nat \<Rightarrow> pydict pydantic_class" where
  "schema_class S v2 r =
     \<lparr>is_v2_model = v2, is_v1_model = \<not> v2, cls_name = schema_name S,
      cls_class = ''<class 'ModelMetaclass'>'',
      model_validate = schema_validate S, parse_obj = schema_validate S, schema_ref = r\<rparr>"

text \<open>
  Modelled from the spec: a best-effort decoder for a text that stops early. It closes the
  string and the brackets that are still open and decodes the result; a text it cannot
  complete this way gives nothing.
\<close>

fun open_brackets :: "string \<Rightarrow> bool \<Rightarrow> string \<Rightarrow> string" where
  "open_brackets [] in_string stack = (if in_string then CHR 0x22 # stack else stack)"
| "open_brackets (c # cs) in_string stack =
     (if in_string then
        (if c = CHR 0x5C then open_brackets (drop 1 cs) True stack
         else if c = CHR 0x22 then open_brackets cs False stack
         else open_brackets cs True stack)
      else if c = CHR 0x22 then open_brackets cs True stack
      else if c = CHR ''{'' then open_brackets cs False (CHR ''}'' # stack)
      else if c = CHR ''['' then open_brackets cs False (CHR '']'' # stack)
      else if c = CHR ''}'' \<or> c = CHR '']'' then open_brackets cs False (drop 1 stack)
      else open_brackets cs False stack)"

definition partial_decode :: "string \<Rightarrow> json option" where
  "partial_decode s =
     (case json_decode (s @ open_brackets s False []) of
        Inl e \<Rightarrow> None
      | Inr v \<Rightarrow> Some v)"

text \<open>The imports with these decoders.\<close>

definition standard_imports :: "int \<Rightarrow> module_imports" where
  "standard_imports version =
     \<lparr>PYDANTIC_MAJOR_VERSION = version, json_loads = json_decode,
      parse_partial_json = partial_decode\<rparr>"

section \<open>Notions used in the proofs\<close>

text \<open>A text can follow a number when it does not go on with a digit.\<close>

definition follows_number :: "string \<Rightarrow> bool" where
  "follows_number rest = (case rest of [] \<Rightarrow> True | c # cs \<Rightarrow> \<not> is_digit c)"

text \<open>A character that starts a JSON value: not white space and not a closing bracket.\<close>

definition value_start :: "char \<Rightarrow> bool" where
  "value_start c = (\<not> is_ws c \<and> c \<noteq> CHR '']'' \<and> c \<noteq> CHR ''}'')"

text \<open>The fuel that scanning the serialization of a value takes, and the values all of
  whose dicts have distinct keys, as every Python dict has.\<close>

fun weight :: "json \<Rightarrow> nat" where
  "weight (JArr xs) = Suc (sum_list (map (\<lambda>x. Suc (weight x)) xs))"
| "weight (JObj kvs) = Suc (sum_list (map (\<lambda>kv. Suc (weight (snd kv))) kvs))"
| "weight j = Suc 0"

fun keys_distinct :: "json \<Rightarrow> bool" where
  "keys_distinct (JArr xs) = list_all keys_distinct xs"
| "keys_distinct (JObj kvs) =
     (distinct (map fst kvs) \<and> list_all (\<lambda>kv. keys_distinct (snd kv)) kvs)"
| "keys_distinct j = True"

section \<open>Instances for the examples\<close>



text \<open>A schema with two required fields and an optional one, and its parser.\<close>

definition joke_schema :: schema where
  "joke_schema =
     \<lparr>schema_name = ''Joke'',
      schema_fields = [(''setup'', TString, True), (''punchline'', TString, True),
                       (''tags'', TArray TString, False)]\<rparr>"

definition joke_parser :: "pydict PydanticOutputParser" where
  "joke_parser = \<lparr>pydantic_object = schema_class joke_schema True 0\<rparr>"

text \<open>A class that is neither a pydantic v2 model nor a pydantic v1 model.\<close>

definition other_parser :: "pydict PydanticOutputParser" where
  "other_parser =
     \<lparr>pydantic_object =
        \<lparr>is_v2_model = False, is_v1_model = False, cls_name = ''Other'',
         cls_class = ''<class 'type'>'',
         model_validate = schema_validate joke_schema,
         parse_obj = schema_validate joke_schema, schema_ref = 0\<rparr>\<rparr>"

text \<open>The schema dict of a class with one field \<open>foo\<close>, a list of strings.\<close>

definition example_schema_dict :: pydict where
  "example_schema_dict =
     [(''title'', JStr ''Model''), (''type'', JStr ''object''),
      (''properties'',
         JObj [(''foo'', JObj [(''title'', JStr ''Foo''), (''description'', JStr ''a list of strings''),
                               (''type'', JStr ''array''), (''items'', JObj [(''type'', JStr ''string'')])])]),
      (''required'', JArr [JStr ''foo''])]"

section \<open>Properties of the fake embedding models\<close>





lemma encode_utf8_example:
  "encode_utf8 [104, 233, 8364, 128512] =
     Inr (map char_of [104, 195, 169, 226, 130, 172, 240, 159, 152, 128 :: nat])"
  by (simp add: encodable_def utf8_bytes_def)

lemma get_seed_range:
  "DeterministicFakeEmbedding_get_seed hl self t = Inr seed \<Longrightarrow> 0 \<le> seed \<and> seed < 10 ^ 8"
  by (auto simp: DeterministicFakeEmbedding_get_seed_def split: sum.splits)


lemma seed_accepted:
  assumes "DeterministicFakeEmbedding_get_seed hl self t = Inr seed"
  shows "np_random_seed np seed = Inr (np_seed np seed)"
proof -
  have r: "0 \<le> seed \<and> seed < 10 ^ 8" using assms by (rule get_seed_range)
  then have "seed < 2 ^ 32" by simp
  then show ?thesis using r by (simp add: np_random_seed_def)
qed

lemma det_get_embedding_seeded:
  "DeterministicFakeEmbedding_get_seed hl self t = Inr seed \<Longrightarrow>
   DeterministicFakeEmbedding_get_embedding np self seed g =
     np_random_normal np (det_size self) (np_seed np seed)"
  by (simp add: DeterministicFakeEmbedding_get_embedding_def seed_accepted)






text \<open>
  C5. For every text \<open>t\<close>, two calls of \<open>DeterministicFakeEmbedding.embed_query(t)\<close> return
  the same result whatever the states \<open>g1\<close> and \<open>g2\<close> of the generator they start from:
  the result is the exception of \<open>t.encode\<close> when \<open>t\<close> has no encoding, and otherwise the one
  of drawing \<open>size\<close> samples from the generator seeded with \<open>sha256(t) mod 10^8\<close>, a function
  of \<open>t\<close> and \<open>size\<close> only.
\<close>

theorem embed_query_deterministic:
  "returned (DeterministicFakeEmbedding_embed_query np hl self t g1) =
     returned (DeterministicFakeEmbedding_embed_query np hl self t g2) \<and>
   returned (DeterministicFakeEmbedding_embed_query np hl self t g1) =
     (case encode_utf8 t of
        Inl e \<Rightarrow> Inl e
      | Inr b \<Rightarrow>
          returned (np_random_normal np (det_size self)
            (np_seed np (int (sha256_int hl b) mod 10 ^ 8))))"
proof (cases "DeterministicFakeEmbedding_get_seed hl self t")
  case (Inl e)
  then show ?thesis
    by (auto simp: DeterministicFakeEmbedding_embed_query_def
        DeterministicFakeEmbedding_get_seed_def returned_def split: sum.splits)
next
  case (Inr seed)
  have q: "DeterministicFakeEmbedding_embed_query np hl self t g =
      np_random_normal np (det_size self) (np_seed np seed)" for g
    by (simp add: DeterministicFakeEmbedding_embed_query_def Inr det_get_embedding_seeded [OF Inr])
  obtain b where b: "encode_utf8 t = Inr b" and s: "int (sha256_int hl b) mod 10 ^ 8 = seed"
    using Inr by (auto simp: DeterministicFakeEmbedding_get_seed_def split: sum.splits)
  show ?thesis using s by (simp add: q b)
qed

lemma det_embed_query_state_free:
  "returned (DeterministicFakeEmbedding_embed_query np hl self t g) =
   returned (DeterministicFakeEmbedding_embed_query np hl self t g')"
proof (cases "DeterministicFakeEmbedding_get_seed hl self t")
  case (Inl e)
  then show ?thesis by (simp add: DeterministicFakeEmbedding_embed_query_def)
next
  case (Inr seed)
  then show ?thesis
    by (simp add: DeterministicFakeEmbedding_embed_query_def det_get_embedding_seeded [OF Inr])
qed

text \<open>
  C10. For DeterministicFakeEmbedding, \<open>embed_documents(texts)\<close> returns what applying
  \<open>embed_query\<close> to each text in order returns: the list of the vectors, or the first
  exception.
\<close>

theorem embed_documents_maps_embed_query:
  "returned (DeterministicFakeEmbedding_embed_documents np hl self texts g) =
   collect (map (\<lambda>t. returned (DeterministicFakeEmbedding_embed_query np hl self t g)) texts)"
proof (induction texts arbitrary: g)
  case Nil
  then show ?case by (simp add: returned_def)
next
  case (Cons t texts)
  let ?q = "DeterministicFakeEmbedding_embed_query np hl self t g"
  show ?case
  proof (cases ?q)
    case (Inl e)
    then show ?thesis
      by (auto simp: returned_def DeterministicFakeEmbedding_embed_query_def split: sum.splits)
  next
    case (Inr p)
    obtain v g1 where p: "p = (v, g1)" by (cases p)
    obtain seed where seed: "DeterministicFakeEmbedding_get_seed hl self t = Inr seed"
      and head: "DeterministicFakeEmbedding_get_embedding np self seed g = Inr (v, g1)"
      using Inr p
      by (auto simp: DeterministicFakeEmbedding_embed_query_def split: sum.splits)
    have rest: "collect (map (\<lambda>t. returned (DeterministicFakeEmbedding_embed_query np hl self t g)) texts) =
      returned (DeterministicFakeEmbedding_embed_documents np hl self texts g1)"
      using Cons.IH [of g1] det_embed_query_state_free [of np hl self _ g1 g] by simp
    have q: "returned ?q = Inr v"
      using Inr p by (simp add: returned_def)
    show ?thesis
    proof (cases "DeterministicFakeEmbedding_embed_documents np hl self texts g1")
      case (Inl e)
      then show ?thesis
        by (simp add: seed head q rest) (simp add: returned_def)
    next
      case (Inr r)
      obtain vs g2 where r: "r = (vs, g2)" by (cases r)
      show ?thesis
        using Inr r by (simp add: seed head q rest) (simp add: returned_def)
    qed
  qed
qed

section \<open>Properties of the pydantic output parser\<close>

lemma base_parse_result_strict:
  "JsonOutputParser_parse_result env (g # gs) False =
     (case json_loads env (gen_text g) of
        Inl e \<Rightarrow> Inl (OutputParserException (''Invalid json output: '' @ gen_text g)
                       (Some (gen_text g)) (Some e))
      | Inr obj \<Rightarrow> Inr obj)"
  by (simp add: JsonOutputParser_parse_result_def)

lemma parse_is_parse_result:
  "PydanticOutputParser_parse env self t =
   PydanticOutputParser_parse_result env self [\<lparr>gen_text = t\<rparr>] False"
  by (simp add: PydanticOutputParser_parse_def JsonOutputParser_parse_def)

lemma parse_result_ignores_partial:
  "PydanticOutputParser_parse_result env self result True =
   PydanticOutputParser_parse_result env self result False"
  by (simp add: PydanticOutputParser_parse_result_def)

lemma parse_result_decoded:
  "JsonOutputParser_parse_result env result False = Inr obj \<Longrightarrow>
   PydanticOutputParser_parse_result env self result partial =
   PydanticOutputParser_parse_obj env self obj"
  by (simp add: PydanticOutputParser_parse_result_def)

lemma parse_obj_unsupported:
  assumes "PYDANTIC_MAJOR_VERSION env = 2"
    and "\<not> is_v2_model (pydantic_object self)"
    and "\<not> is_v1_model (pydantic_object self)"
  shows "PydanticOutputParser_parse_obj env self obj =
    Inl (OutputParserException
          (''Unsupported model version for PydanticOutputParser: '' @
           replicate 28 CHR '' '' @ cls_class (pydantic_object self)) None None)"
  using assms by (simp add: PydanticOutputParser_parse_obj_def)

text \<open>
  C9. Under pydantic major version 2, when the class in \<open>pydantic_object\<close> is neither a
  pydantic v2 model nor a pydantic v1 model, \<open>_parse_obj\<close> raises the OutputParserException
  that reports an unsupported model version, for every decoded object; so do \<open>parse_result\<close>
  and \<open>parse\<close> whenever the base class has decoded the input to an object.
\<close>

theorem unsupported_model_version:
  assumes "PYDANTIC_MAJOR_VERSION env = 2"
    and "\<not> is_v2_model (pydantic_object self)"
    and "\<not> is_v1_model (pydantic_object self)"
  shows "PydanticOutputParser_parse_obj env self obj =
           Inl (OutputParserException
                 (''Unsupported model version for PydanticOutputParser: '' @
                  replicate 28 CHR '' '' @ cls_class (pydantic_object self)) None None) \<and>
         (JsonOutputParser_parse_result env result False = Inr obj \<longrightarrow>
          PydanticOutputParser_parse_result env self result partial =
            Inl (OutputParserException
                  (''Unsupported model version for PydanticOutputParser: '' @
                   replicate 28 CHR '' '' @ cls_class (pydantic_object self)) None None)) \<and>
         (JsonOutputParser_parse_result env [\<lparr>gen_text = t\<rparr>] False = Inr obj \<longrightarrow>
          PydanticOutputParser_parse env self t =
            Inl (OutputParserException
                  (''Unsupported model version for PydanticOutputParser: '' @
                   replicate 28 CHR '' '' @ cls_class (pydantic_object self)) None None))"
  using parse_obj_unsupported [OF assms]
  by (simp add: parse_is_parse_result parse_result_decoded)

lemma decode_joke:
  \<open>json_decode ''{"setup": "Why", "punchline": "Because"}'' =
     Inr (JObj [(''setup'', JStr ''Why''), (''punchline'', JStr ''Because'')])\<close>
  by code_simp

theorem unsupported_model_version_witness:
  \<open>PYDANTIC_MAJOR_VERSION (standard_imports 2) = 2 \<and>
   \<not> is_v2_model (pydantic_object other_parser) \<and>
   \<not> is_v1_model (pydantic_object other_parser) \<and>
   JsonOutputParser_parse_result (standard_imports 2)
     [\<lparr>gen_text = ''{"setup": "Why", "punchline": "Because"}''\<rparr>] False =
     Inr (JObj [(''setup'', JStr ''Why''), (''punchline'', JStr ''Because'')]) \<and>
   PydanticOutputParser_parse (standard_imports 2) other_parser
     ''{"setup": "Why", "punchline": "Because"}'' =
     Inl (OutputParserException
           (''Unsupported model version for PydanticOutputParser: '' @
            replicate 28 CHR '' '' @ ''<class 'type'>'') None None)\<close>
proof -
  have v: "PYDANTIC_MAJOR_VERSION (standard_imports 2) = 2"
    by (simp add: standard_imports_def)
  have k2: "\<not> is_v2_model (pydantic_object other_parser)"
    by (simp add: other_parser_def)
  have k1: "\<not> is_v1_model (pydantic_object other_parser)"
    by (simp add: other_parser_def)
  have d: \<open>JsonOutputParser_parse_result (standard_imports 2)
     [\<lparr>gen_text = ''{"setup": "Why", "punchline": "Because"}''\<rparr>] False =
     Inr (JObj [(''setup'', JStr ''Why''), (''punchline'', JStr ''Because'')])\<close>
    by (simp add: base_parse_result_strict standard_imports_def decode_joke)
  have c: "cls_class (pydantic_object other_parser) = ''<class 'type'>''"
    by (simp add: other_parser_def)
  show ?thesis
    using unsupported_model_version [OF v k2 k1,
        of "JObj [(''setup'', JStr ''Why''), (''punchline'', JStr ''Because'')]"
           "[]" False \<open>''{"setup": "Why", "punchline": "Because"}''\<close>]
      v k2 k1 d c
    by simp
qed

lemma parse_obj_validation_error:
  assumes "PYDANTIC_MAJOR_VERSION env = 2 \<and> is_v2_model (pydantic_object self) \<and>
             model_validate (pydantic_object self) obj = Inl (ValidationError m) \<or>
           PYDANTIC_MAJOR_VERSION env = 2 \<and> \<not> is_v2_model (pydantic_object self) \<and>
             is_v1_model (pydantic_object self) \<and>
             parse_obj (pydantic_object self) obj = Inl (ValidationError m) \<or>
           PYDANTIC_MAJOR_VERSION env \<noteq> 2 \<and>
             parse_obj (pydantic_object self) obj = Inl (ValidationError m)"
  shows "PydanticOutputParser_parse_obj env self obj =
     Inl (OutputParserException
           (''Failed to parse '' @ cls_name (pydantic_object self) @ '' from completion '' @
            json_dumps obj @ ''. Got: '' @ m)
           (Some (json_dumps obj)) None)"
  using assms
  by (auto simp: PydanticOutputParser_parse_obj_def PydanticOutputParser_parser_exception_def Let_def)

text \<open>
  C3. When the text decodes to a JSON value and the validation method that \<open>_parse_obj\<close>
  calls on the class (\<open>model_validate\<close> for a pydantic v2 model under pydantic 2,
  \<open>parse_obj\<close> otherwise) raises a ValidationError, as it does for a missing required field,
  \<open>parse\<close> raises one OutputParserException: its message names the class and holds the
  decoded value serialized back by \<open>json.dumps\<close>, and its \<open>llm_output\<close> is that JSON string.
\<close>

theorem validation_failure_names_schema_and_json:
  assumes "JsonOutputParser_parse_result env [\<lparr>gen_text = t\<rparr>] False = Inr obj"
    and "PYDANTIC_MAJOR_VERSION env = 2 \<and> is_v2_model (pydantic_object self) \<and>
           model_validate (pydantic_object self) obj = Inl (ValidationError m) \<or>
         PYDANTIC_MAJOR_VERSION env = 2 \<and> \<not> is_v2_model (pydantic_object self) \<and>
           is_v1_model (pydantic_object self) \<and>
           parse_obj (pydantic_object self) obj = Inl (ValidationError m) \<or>
         PYDANTIC_MAJOR_VERSION env \<noteq> 2 \<and>
           parse_obj (pydantic_object self) obj = Inl (ValidationError m)"
  shows "\<exists>msg. PydanticOutputParser_parse env self t =
             Inl (OutputParserException msg (Some (json_dumps obj)) None) \<and>
           msg = ''Failed to parse '' @ cls_name (pydantic_object self) @
                 '' from completion '' @ json_dumps obj @ ''. Got: '' @ m \<and>
           sublist (cls_name (pydantic_object self)) msg \<and>
           sublist (json_dumps obj) msg"
proof -
  let ?msg = "''Failed to parse '' @ cls_name (pydantic_object self) @
                 '' from completion '' @ json_dumps obj @ ''. Got: '' @ m"
  have "PydanticOutputParser_parse env self t =
      Inl (OutputParserException ?msg (Some (json_dumps obj)) None)"
    using parse_obj_validation_error [OF assms(2)] assms(1)
    by (simp add: parse_is_parse_result parse_result_decoded)
  moreover have "sublist (cls_name (pydantic_object self)) ?msg"
    by (rule sublist_appendI)
  moreover have "sublist (json_dumps obj) ?msg"
    using sublist_appendI [of "json_dumps obj"
        "''Failed to parse '' @ cls_name (pydantic_object self) @ '' from completion ''"
        "''. Got: '' @ m"]
    by simp
  ultimately show ?thesis by blast
qed

text \<open>
  C7. When the JSON decoder rejects the text with the error \<open>e\<close>, \<open>parse\<close> (and
  \<open>parse_result\<close> on a result whose first generation has that text) raises an
  OutputParserException that carries the original text as \<open>llm_output\<close> and \<open>e\<close> as its
  cause; validation is not reached.
\<close>

theorem invalid_json_is_parse_failure:
  assumes "json_loads env t = Inl e"
  shows "PydanticOutputParser_parse env self t =
           Inl (OutputParserException (''Invalid json output: '' @ t) (Some t) (Some e)) \<and>
         PydanticOutputParser_parse_result env self (\<lparr>gen_text = t\<rparr> # gs) partial =
           Inl (OutputParserException (''Invalid json output: '' @ t) (Some t) (Some e))"
  using assms
  by (simp add: parse_is_parse_result PydanticOutputParser_parse_result_def
      base_parse_result_strict)

lemma decode_setup_only:
  \<open>json_decode ''{"setup": "Why"}'' = Inr (JObj [(''setup'', JStr ''Why'')])\<close>
  by code_simp

lemma dumps_setup_only:
  \<open>json_dumps (JObj [(''setup'', JStr ''Why'')]) = ''{"setup": "Why"}''\<close>
  by code_simp

lemma validate_setup_only:
  "schema_validate joke_schema (JObj [(''setup'', JStr ''Why'')]) =
     Inl (ValidationError ''punchline: field required'')"
  by code_simp

theorem validation_failure_names_schema_and_json_witness:
  \<open>JsonOutputParser_parse_result (standard_imports 2)
      [\<lparr>gen_text = ''{"setup": "Why"}''\<rparr>] False = Inr (JObj [(''setup'', JStr ''Why'')]) \<and>
   PYDANTIC_MAJOR_VERSION (standard_imports 2) = 2 \<and>
   is_v2_model (pydantic_object joke_parser) \<and>
   model_validate (pydantic_object joke_parser) (JObj [(''setup'', JStr ''Why'')]) =
     Inl (ValidationError ''punchline: field required'') \<and>
   PydanticOutputParser_parse (standard_imports 2) joke_parser ''{"setup": "Why"}'' =
     Inl (OutputParserException
           ''Failed to parse Joke from completion {"setup": "Why"}. Got: punchline: field required''
           (Some ''{"setup": "Why"}'') None)\<close>
proof -
  have d: \<open>JsonOutputParser_parse_result (standard_imports 2)
      [\<lparr>gen_text = ''{"setup": "Why"}''\<rparr>] False = Inr (JObj [(''setup'', JStr ''Why'')])\<close>
    by (simp add: base_parse_result_strict standard_imports_def decode_setup_only)
  have v: "PYDANTIC_MAJOR_VERSION (standard_imports 2) = 2"
    by (simp add: standard_imports_def)
  have k: "is_v2_model (pydantic_object joke_parser)"
    by (simp add: joke_parser_def schema_class_def)
  have f: "model_validate (pydantic_object joke_parser) (JObj [(''setup'', JStr ''Why'')]) =
     Inl (ValidationError ''punchline: field required'')"
    by (simp add: joke_parser_def schema_class_def validate_setup_only)
  have n: "cls_name (pydantic_object joke_parser) = ''Joke''"
    by (simp add: joke_parser_def schema_class_def joke_schema_def)
  show ?thesis
    using validation_failure_names_schema_and_json
      [of "standard_imports 2" \<open>''{"setup": "Why"}''\<close> "JObj [(''setup'', JStr ''Why'')]"
          joke_parser "''punchline: field required''"]
      d v k f
    by (simp add: n dumps_setup_only del: json_dumps.simps)
qed

lemma decode_not_valid:
  "json_decode ''{not valid'' = Inl (JSONDecodeError ''Expecting value'')"
  by code_simp

theorem invalid_json_is_parse_failure_witness:
  "json_loads (standard_imports 2) ''{not valid'' = Inl (JSONDecodeError ''Expecting value'') \<and>
   PydanticOutputParser_parse (standard_imports 2) joke_parser ''{not valid'' =
     Inl (OutputParserException ''Invalid json output: {not valid'' (Some ''{not valid'')
           (Some (JSONDecodeError ''Expecting value'')))"
proof -
  have d: "json_loads (standard_imports 2) ''{not valid'' =
      Inl (JSONDecodeError ''Expecting value'')"
    by (simp add: standard_imports_def decode_not_valid)
  show ?thesis
    using invalid_json_is_parse_failure [OF d, of joke_parser "[]" False] d by simp
qed

lemma decode_truncated:
  \<open>json_decode ''{"setup": "Why'' = Inl (JSONDecodeError ''Expecting value'')\<close>
  by code_simp

lemma partial_decode_truncated:
  \<open>partial_decode ''{"setup": "Why'' = Some (JObj [(''setup'', JStr ''Why'')])\<close>
  by code_simp

text \<open>
  C1. \<open>parse_result\<close> with \<open>partial=True\<close> on a first generation that stops early: the base
  class in partial mode would give the object decoded so far, but \<open>parse_result\<close> calls the
  base class without \<open>partial\<close> and raises; and on a complete JSON object that lacks a
  required field it raises the validation failure, whatever \<open>partial\<close> is.
\<close>

theorem parse_result_partial_still_fails:
  \<open>JsonOutputParser_parse_result (standard_imports 2)
      [\<lparr>gen_text = ''{"setup": "Why''\<rparr>] True = Inr (JObj [(''setup'', JStr ''Why'')]) \<and>
   PydanticOutputParser_parse_result (standard_imports 2) joke_parser
      [\<lparr>gen_text = ''{"setup": "Why''\<rparr>] True =
     Inl (OutputParserException ''Invalid json output: {"setup": "Why''
           (Some ''{"setup": "Why'') (Some (JSONDecodeError ''Expecting value''))) \<and>
   PydanticOutputParser_parse_result (standard_imports 2) joke_parser
      [\<lparr>gen_text = ''{"setup": "Why"}''\<rparr>] True =
     Inl (OutputParserException
           ''Failed to parse Joke from completion {"setup": "Why"}. Got: punchline: field required''
           (Some ''{"setup": "Why"}'') None)\<close>
proof -
  have a: \<open>JsonOutputParser_parse_result (standard_imports 2)
      [\<lparr>gen_text = ''{"setup": "Why''\<rparr>] True = Inr (JObj [(''setup'', JStr ''Why'')])\<close>
    by (simp add: JsonOutputParser_parse_result_def standard_imports_def
        partial_decode_truncated)
  have b: \<open>PydanticOutputParser_parse_result (standard_imports 2) joke_parser
      [\<lparr>gen_text = ''{"setup": "Why''\<rparr>] True =
     Inl (OutputParserException ''Invalid json output: {"setup": "Why''
           (Some ''{"setup": "Why'') (Some (JSONDecodeError ''Expecting value'')))\<close>
    by (simp add: PydanticOutputParser_parse_result_def base_parse_result_strict
        standard_imports_def decode_truncated)
  have d: \<open>JsonOutputParser_parse_result (standard_imports 2)
      [\<lparr>gen_text = ''{"setup": "Why"}''\<rparr>] False = Inr (JObj [(''setup'', JStr ''Why'')])\<close>
    by (simp add: base_parse_result_strict standard_imports_def decode_setup_only)
  have f: "PYDANTIC_MAJOR_VERSION (standard_imports 2) = 2 \<and>
      is_v2_model (pydantic_object joke_parser) \<and>
      model_validate (pydantic_object joke_parser) (JObj [(''setup'', JStr ''Why'')]) =
        Inl (ValidationError ''punchline: field required'')"
    by (simp add: standard_imports_def joke_parser_def schema_class_def validate_setup_only)
  have n: "cls_name (pydantic_object joke_parser) = ''Joke''"
    by (simp add: joke_parser_def schema_class_def joke_schema_def)
  have c: \<open>PydanticOutputParser_parse_result (standard_imports 2) joke_parser
      [\<lparr>gen_text = ''{"setup": "Why"}''\<rparr>] True =
     Inl (OutputParserException
           ''Failed to parse Joke from completion {"setup": "Why"}. Got: punchline: field required''
           (Some ''{"setup": "Why"}'') None)\<close>
    using parse_obj_validation_error [of "standard_imports 2" joke_parser
        "JObj [(''setup'', JStr ''Why'')]" "''punchline: field required''"] f
    by (simp add: parse_result_decoded [OF d] n dumps_setup_only del: json_dumps.simps)
  show ?thesis using a b c by simp
qed

subsection \<open>Format instructions\<close>

lemma str_format_template:
  "str_format PYDANTIC_FORMAT_INSTRUCTIONS v =
     Inr (format_instructions_head @ v @ format_instructions_tail)"
  by (simp add: PYDANTIC_FORMAT_INSTRUCTIONS_def format_instructions_head_def
      format_instructions_tail_def)

lemma dict_del_absent: "\<not> dict_contains d k \<Longrightarrow> dict_del d k = d"
  by (induction d) (auto simp: dict_contains_def dict_del_def split: if_splits)

lemma dict_del_twice:
  "dict_del (dict_del d ''title'') ''type'' =
   filter (\<lambda>kv. fst kv \<noteq> ''title'' \<and> fst kv \<noteq> ''type'') d"
  by (induction d) (auto simp: dict_del_def)

lemma get_format_instructions_unfold:
  "PydanticOutputParser_get_format_instructions self h =
     (str_format PYDANTIC_FORMAT_INSTRUCTIONS
        (json_dumps (JObj (dict_del (dict_del (heap_get h (schema_ref (pydantic_object self)))
           ''title'') ''type''))),
      h @ [dict_del (dict_del (heap_get h (schema_ref (pydantic_object self))) ''title'') ''type''])"
  by (simp add: PydanticOutputParser_get_format_instructions_def Let_def heap_alloc_def
      heap_get_def heap_set_def dict_del_absent del: json_dumps.simps)

lemma sublist_str_join: "x \<in> set xs \<Longrightarrow> sublist x (str_join sep xs)"
proof (induction sep xs rule: str_join.induct)
  case (1 sep)
  then show ?case by simp
next
  case (2 sep y)
  then show ?case by simp
next
  case (3 sep y z zs)
  show ?case
  proof (cases "x = y")
    case True
    then show ?thesis by simp
  next
    case False
    then have "sublist x (str_join sep (z # zs))" using 3 by simp
    then obtain ps ss where "str_join sep (z # zs) = ps @ x @ ss"
      by (auto simp: sublist_def)
    then have "str_join sep (y # z # zs) = (y @ sep @ ps) @ x @ ss" by simp
    then show ?thesis unfolding sublist_def by blast
  qed
qed

lemma sublist_dumps_item:
  assumes "(k, v) \<in> set kvs"
  shows "sublist (encode_basestring_ascii k @ '': '' @ json_dumps v) (json_dumps (JObj kvs))"
proof -
  let ?item = "\<lambda>kv. encode_basestring_ascii (fst kv) @ '': '' @ json_dumps (snd kv)"
  have "?item (k, v) \<in> set (map ?item kvs)" using assms by (force simp: image_iff)
  then have "sublist (?item (k, v)) (str_join '', '' (map ?item kvs))"
    by (rule sublist_str_join)
  then obtain ps ss where "str_join '', '' (map ?item kvs) = ps @ ?item (k, v) @ ss"
    by (auto simp: sublist_def)
  then have "json_dumps (JObj kvs) = (''{'' @ ps) @ ?item (k, v) @ (ss @ ''}'')" by simp
  then show ?thesis unfolding sublist_def by (metis fst_conv snd_conv)
qed

lemma properties_key: \<open>encode_basestring_ascii ''properties'' = ''"properties"''\<close>
  by code_simp

text \<open>
  C6. For every schema dict of the class, \<open>get_format_instructions\<close> returns the template
  text around the JSON serialization of the reduced schema: the items of the schema dict
  without the top-level keys \<open>"title"\<close> and \<open>"type"\<close>, which the reduced schema no longer
  has. When the schema dict has a \<open>"properties"\<close> item, its serialization
  \<open>"properties": ...\<close> is part of the embedded JSON and so of the returned string.
\<close>

theorem format_instructions_embed_reduced_schema:
  "\<exists>reduced.
     reduced = filter (\<lambda>kv. fst kv \<noteq> ''title'' \<and> fst kv \<noteq> ''type'')
                 (heap_get h (schema_ref (pydantic_object self))) \<and>
     fst (PydanticOutputParser_get_format_instructions self h) =
       Inr (format_instructions_head @ json_dumps (JObj reduced) @ format_instructions_tail) \<and>
     \<not> dict_contains reduced ''title'' \<and> \<not> dict_contains reduced ''type'' \<and>
     (\<forall>p. (''properties'', p) \<in> set (heap_get h (schema_ref (pydantic_object self))) \<longrightarrow>
        sublist (CHR 0x22 # ''properties'' @ [CHR 0x22] @ '': '' @ json_dumps p)
          (json_dumps (JObj reduced)) \<and>
        (\<exists>out. fst (PydanticOutputParser_get_format_instructions self h) = Inr out \<and>
           sublist (CHR 0x22 # ''properties'' @ [CHR 0x22] @ '': '' @ json_dumps p) out))"
proof -
  let ?orig = "heap_get h (schema_ref (pydantic_object self))"
  let ?red = "filter (\<lambda>kv. fst kv \<noteq> ''title'' \<and> fst kv \<noteq> ''type'') ?orig"
  have out: "fst (PydanticOutputParser_get_format_instructions self h) =
       Inr (format_instructions_head @ json_dumps (JObj ?red) @ format_instructions_tail)"
    by (simp add: get_format_instructions_unfold str_format_template dict_del_twice
        del: json_dumps.simps)
  have no_title: "\<not> dict_contains ?red ''title''"
    by (auto simp: dict_contains_def map_of_eq_None_iff)
  have no_type: "\<not> dict_contains ?red ''type''"
    by (auto simp: dict_contains_def map_of_eq_None_iff)
  have props: "sublist (CHR 0x22 # ''properties'' @ [CHR 0x22] @ '': '' @ json_dumps p)
          (json_dumps (JObj ?red))" if "(''properties'', p) \<in> set ?orig" for p
  proof -
    have "(''properties'', p) \<in> set ?red" using that by simp
    then have "sublist (encode_basestring_ascii ''properties'' @ '': '' @ json_dumps p)
        (json_dumps (JObj ?red))"
      by (rule sublist_dumps_item)
    then show ?thesis by (simp add: properties_key del: json_dumps.simps)
  qed
  have props_out: "sublist (CHR 0x22 # ''properties'' @ [CHR 0x22] @ '': '' @ json_dumps p)
      (format_instructions_head @ json_dumps (JObj ?red) @ format_instructions_tail)"
    if mem: "(''properties'', p) \<in> set ?orig" for p
  proof -
    obtain ps ss where "json_dumps (JObj ?red) =
        ps @ (CHR 0x22 # ''properties'' @ [CHR 0x22] @ '': '' @ json_dumps p) @ ss"
      using props [OF mem] unfolding sublist_def by blast
    then have "format_instructions_head @ json_dumps (JObj ?red) @ format_instructions_tail =
        (format_instructions_head @ ps) @
        (CHR 0x22 # ''properties'' @ [CHR 0x22] @ '': '' @ json_dumps p) @
        (ss @ format_instructions_tail)"
      by simp
    then show ?thesis unfolding sublist_def by blast
  qed
  show ?thesis
    using out no_title no_type props props_out by (simp del: json_dumps.simps)
qed

text \<open>
  C8. \<open>get_format_instructions\<close> leaves every dict that was on the heap as it was and adds
  one new dict, the copy it reduces; the schema dict of the class is the same before and
  after the call, and a second call returns the same string.
\<close>

theorem get_format_instructions_keeps_schema:
  "take (length h) (snd (PydanticOutputParser_get_format_instructions self h)) = h \<and>
   length (snd (PydanticOutputParser_get_format_instructions self h)) = Suc (length h) \<and>
   (schema_ref (pydantic_object self) < length h \<longrightarrow>
      heap_get (snd (PydanticOutputParser_get_format_instructions self h))
        (schema_ref (pydantic_object self)) =
      heap_get h (schema_ref (pydantic_object self)) \<and>
      fst (PydanticOutputParser_get_format_instructions self
             (snd (PydanticOutputParser_get_format_instructions self h))) =
      fst (PydanticOutputParser_get_format_instructions self h))"
  by (simp add: get_format_instructions_unfold heap_get_def nth_append del: json_dumps.simps)

lemma example_schema_ref:
  "heap_get [example_schema_dict] (schema_ref (pydantic_object joke_parser)) = example_schema_dict"
  by (simp add: heap_get_def joke_parser_def schema_class_def)

lemma example_schema_reduced:
  "filter (\<lambda>kv. fst kv \<noteq> ''title'' \<and> fst kv \<noteq> ''type'') example_schema_dict =
     [(''properties'',
         JObj [(''foo'', JObj [(''title'', JStr ''Foo''), (''description'', JStr ''a list of strings''),
                               (''type'', JStr ''array''), (''items'', JObj [(''type'', JStr ''string'')])])]),
      (''required'', JArr [JStr ''foo''])]"
  by (simp add: example_schema_dict_def)

lemma example_schema_dumps:
  \<open>json_dumps (JObj
     [(''properties'',
         JObj [(''foo'', JObj [(''title'', JStr ''Foo''), (''description'', JStr ''a list of strings''),
                               (''type'', JStr ''array''), (''items'', JObj [(''type'', JStr ''string'')])])]),
      (''required'', JArr [JStr ''foo''])]) =
   ''{"properties": {"foo": {"title": "Foo", "description": "a list of strings", "type": "array", "items": {"type": "string"}}}, "required": ["foo"]}''\<close>
  by code_simp

theorem format_instructions_embed_reduced_schema_witness:
  \<open>(''properties'',
      JObj [(''foo'', JObj [(''title'', JStr ''Foo''), (''description'', JStr ''a list of strings''),
                            (''type'', JStr ''array''), (''items'', JObj [(''type'', JStr ''string'')])])])
     \<in> set (heap_get [example_schema_dict] (schema_ref (pydantic_object joke_parser))) \<and>
   fst (PydanticOutputParser_get_format_instructions joke_parser [example_schema_dict]) =
     Inr (format_instructions_head @
          ''{"properties": {"foo": {"title": "Foo", "description": "a list of strings", "type": "array", "items": {"type": "string"}}}, "required": ["foo"]}'' @
          format_instructions_tail) \<and>
   sublist (CHR 0x22 # ''properties'' @ [CHR 0x22] @ '': '' @
            json_dumps (JObj [(''foo'', JObj [(''title'', JStr ''Foo''),
              (''description'', JStr ''a list of strings''), (''type'', JStr ''array''),
              (''items'', JObj [(''type'', JStr ''string'')])])]))
     ''{"properties": {"foo": {"title": "Foo", "description": "a list of strings", "type": "array", "items": {"type": "string"}}}, "required": ["foo"]}''\<close>
proof -
  have mem: "(''properties'',
      JObj [(''foo'', JObj [(''title'', JStr ''Foo''), (''description'', JStr ''a list of strings''),
                            (''type'', JStr ''array''), (''items'', JObj [(''type'', JStr ''string'')])])])
     \<in> set (heap_get [example_schema_dict] (schema_ref (pydantic_object joke_parser)))"
    by (simp add: example_schema_ref) (simp add: example_schema_dict_def)
  show ?thesis
    using format_instructions_embed_reduced_schema [of "[example_schema_dict]" joke_parser] mem
    by (simp add: example_schema_ref example_schema_reduced example_schema_dumps
        del: json_dumps.simps)
qed

theorem get_format_instructions_keeps_schema_witness:
  "schema_ref (pydantic_object joke_parser) < length [example_schema_dict] \<and>
   heap_get (snd (PydanticOutputParser_get_format_instructions joke_parser [example_schema_dict]))
     (schema_ref (pydantic_object joke_parser)) = example_schema_dict \<and>
   take 1 (snd (PydanticOutputParser_get_format_instructions joke_parser [example_schema_dict])) =
     [example_schema_dict]"
proof -
  have r: "schema_ref (pydantic_object joke_parser) < length [example_schema_dict]"
    by (simp add: joke_parser_def schema_class_def)
  show ?thesis
    using get_format_instructions_keeps_schema [of "[example_schema_dict]" joke_parser] r
    by (simp add: heap_get_def)
qed

section \<open>Serialize, then parse\<close>

subsection \<open>Decoding an encoded string\<close>

lemma hex_val_hex_digit: "d < 16 \<Longrightarrow> hex_val (hex_digit d) = Some d"
  by (auto simp: hex_val_def hex_digit_def Let_def)

lemma hex4_escape:
  "hex4 CHR ''0'' CHR ''0'' (hex_digit ((of_char c :: nat) div 16)) (hex_digit ((of_char c :: nat) mod 16))
     = Some (of_char c)"
proof -
  have "(of_char c :: nat) < 256" by simp
  then have d: "(of_char c :: nat) div 16 < 16" by arith
  have z: "hex_val CHR ''0'' = Some 0" by (simp add: hex_val_def)
  show ?thesis
    by (simp add: hex4_def z hex_val_hex_digit [OF d] hex_val_hex_digit)
qed

lemma scan_string_escape:
  "scan_string (escape_char c @ t) = cons_fst c (scan_string t)"
proof -
  have u: "scan_string (CHR 0x5C # CHR ''u'' # CHR ''0'' # CHR ''0'' #
      hex_digit ((of_char c :: nat) div 16) # hex_digit ((of_char c :: nat) mod 16) # t) =
      cons_fst c (scan_string t)"
    by (simp add: hex4_escape)
  show ?thesis
    unfolding escape_char_def using u
    by (simp add: unescape_def)
qed

lemma scan_string_encoded:
  "scan_string (concat (map escape_char s) @ CHR 0x22 # rest) = Some (s, rest)"
  by (induction s) (simp_all add: scan_string_escape cons_fst_def)

subsection \<open>Decoding an integer\<close>

lemma is_digit_digit_char: "d < 10 \<Longrightarrow> is_digit (digit_char d)"
  by (simp add: is_digit_def digit_char_def)

lemma digit_val_digit_char: "d < 10 \<Longrightarrow> digit_val (digit_char d) = d"
  by (simp add: digit_val_def digit_char_def)

lemma digit_char_zero: "d < 10 \<Longrightarrow> digit_char d = CHR ''0'' \<longleftrightarrow> d = 0"
proof -
  assume d: "d < 10"
  have "digit_char d = CHR ''0'' \<longleftrightarrow> (of_char (digit_char d) :: nat) = of_char CHR ''0''"
    by (metis of_char_eq_iff)
  also have "\<dots> \<longleftrightarrow> d = 0" using d by (simp add: digit_char_def)
  finally show ?thesis .
qed

lemma digit_char_0: "digit_char 0 = CHR ''0''"
  by code_simp

lemma digits_small: "n < 10 \<Longrightarrow> digits n = [digit_char n]"
  by (subst digits.simps) simp

lemma digits_large: "\<not> n < 10 \<Longrightarrow> digits n = digits (n div 10) @ [digit_char (n mod 10)]"
  by (subst digits.simps) simp

lemma digits_0: "digits 0 = ''0''"
  by (simp add: digits_small digit_char_0)

lemma digits_all_digits: "\<forall>c\<in>set (digits n). is_digit c"
proof (induction n rule: digits.induct)
  case (1 n)
  show ?case
  proof (cases "n < 10")
    case True
    then show ?thesis by (simp add: digits_small is_digit_digit_char)
  next
    case False
    then have "digits n = digits (n div 10) @ [digit_char (n mod 10)]" by (rule digits_large)
    moreover have "\<forall>c\<in>set (digits (n div 10)). is_digit c" using 1 False by simp
    ultimately show ?thesis by (simp add: is_digit_digit_char)
  qed
qed

lemma digits_val_snoc: "digits_val (ds @ [d]) = 10 * digits_val ds + digit_val d"
  by (simp add: digits_val_def)

lemma digits_val_digits: "digits_val (digits n) = n"
proof (induction n rule: digits.induct)
  case (1 n)
  show ?case
  proof (cases "n < 10")
    case True
    then show ?thesis by (simp add: digits_small digits_val_def digit_val_digit_char)
  next
    case False
    then have "digits n = digits (n div 10) @ [digit_char (n mod 10)]" by (rule digits_large)
    moreover have "digits_val (digits (n div 10)) = n div 10" using 1 False by simp
    ultimately show ?thesis
      by (simp add: digits_val_snoc digit_val_digit_char)
  qed
qed

lemma digits_head: "\<exists>c cs. digits n = c # cs \<and> is_digit c \<and> (c = CHR ''0'' \<longleftrightarrow> n = 0)"
proof (induction n rule: digits.induct)
  case (1 n)
  show ?case
  proof (cases "n < 10")
    case True
    then show ?thesis by (simp add: digits_small is_digit_digit_char digit_char_zero)
  next
    case False
    then have eq: "digits n = digits (n div 10) @ [digit_char (n mod 10)]" by (rule digits_large)
    from 1 [OF False] obtain c cs where c: "digits (n div 10) = c # cs" "is_digit c"
        "(c = CHR ''0'') = (n div 10 = 0)"
      by auto
    have "n div 10 \<noteq> 0" using False by simp
    then show ?thesis using eq c False by (simp)
  qed
qed

lemma takeWhile_digits:
  "follows_number rest \<Longrightarrow> takeWhile is_digit (digits n @ rest) = digits n"
  using digits_all_digits [of n]
  by (cases rest) (simp_all add: follows_number_def takeWhile_append2)

lemma dropWhile_digits:
  "follows_number rest \<Longrightarrow> dropWhile is_digit (digits n @ rest) = rest"
  using digits_all_digits [of n]
  by (cases rest) (simp_all add: follows_number_def dropWhile_append2)

lemma scan_digits_digits:
  assumes "follows_number rest"
  shows "scan_digits (digits n @ rest) = Some (n, rest)"
proof -
  obtain c cs where c: "digits n = c # cs" "is_digit c" "c = CHR ''0'' \<longleftrightarrow> n = 0"
    using digits_head [of n] by blast
  show ?thesis
  proof (cases "n = 0")
    case True
    then show ?thesis by (simp add: scan_digits_def digits_0)
  next
    case False
    then have nz: "c \<noteq> CHR ''0''" using c by simp
    have "scan_digits (digits n @ rest) =
        Some (digits_val (takeWhile is_digit (digits n @ rest)), dropWhile is_digit (digits n @ rest))"
      using c nz by (simp add: scan_digits_def)
    then show ?thesis
      by (simp add: takeWhile_digits [OF assms] dropWhile_digits [OF assms] digits_val_digits
         )
  qed
qed

lemma scan_number_str_int:
  assumes "follows_number rest"
  shows "scan_number (str_int i @ rest) = Some (JInt i, rest)"
proof (cases "i < 0")
  case True
  then show ?thesis
    by (simp add: scan_number_def str_int_def scan_digits_digits [OF assms])
next
  case False
  obtain c cs where c: "digits (nat i) = c # cs" "is_digit c"
    using digits_head [of "nat i"] by blast
  have "c \<noteq> CHR ''-''" using c(2) by (auto simp: is_digit_def)
  then have "scan_number (digits (nat i) @ rest) =
      (case scan_digits (digits (nat i) @ rest) of None \<Rightarrow> None
       | Some (n, r) \<Rightarrow> Some (JInt (int n), r))"
    using c(1) by (simp add: scan_number_def)
  then show ?thesis
    using False by (simp add: str_int_def scan_digits_digits [OF assms])
qed

subsection \<open>Decoding a serialized value\<close>

lemma skip_ws_nonws: "\<not> is_ws c \<Longrightarrow> skip_ws (c # cs) = c # cs"
  by (simp add: skip_ws_def)

lemma skip_ws_space: "skip_ws (CHR '' '' # s) = skip_ws s"
  by (simp add: skip_ws_def is_ws_def)

lemma scan_value_space: "scan_value n (CHR '' '' # s) = scan_value n s"
  by (cases n) (simp_all add: skip_ws_space)

lemma scan_items_space: "scan_items n (CHR '' '' # s) = scan_items n s"
  by (cases n) (simp_all add: scan_value_space)

lemma scan_members_space: "scan_members n (CHR '' '' # s) = scan_members n s"
  by (cases n) (simp_all add: skip_ws_space)

lemma str_int_head: "\<exists>c cs. str_int i = c # cs \<and> (c = CHR ''-'' \<or> is_digit c)"
  using digits_head [of "nat i"] by (auto simp: str_int_def)

lemma dumps_head: "\<exists>c cs. json_dumps j = c # cs \<and> value_start c"
proof (cases j)
  case (JInt i)
  obtain c cs where "str_int i = c # cs" "c = CHR ''-'' \<or> is_digit c"
    using str_int_head by blast
  then show ?thesis using JInt by (auto simp: value_start_def is_ws_def is_digit_def)
qed (auto simp: value_start_def is_ws_def encode_basestring_ascii_def)

lemma follows_number_close [simp]:
  "follows_number (CHR '']'' # r)" "follows_number (CHR ''}'' # r)" "follows_number (CHR '','' # r)"
  "follows_number []"
  by (simp_all add: follows_number_def is_digit_def)

lemma scan_value_null:
  "scan_value (Suc n) (''null'' @ rest) = Some (JNull, rest)"
  by (simp add: skip_ws_def is_ws_def)

lemma scan_value_bool:
  "scan_value (Suc n) ((if b then ''true'' else ''false'') @ rest) = Some (JBool b, rest)"
  by (simp add: skip_ws_def is_ws_def)

lemma scan_value_int:
  assumes "follows_number rest"
  shows "scan_value (Suc n) (str_int i @ rest) = Some (JInt i, rest)"
proof -
  obtain c cs where c: "str_int i = c # cs" "c = CHR ''-'' \<or> is_digit c"
    using str_int_head by blast
  have ne: "c \<noteq> CHR 0x22" "c \<noteq> CHR ''[''" "c \<noteq> CHR ''{''" "c \<noteq> CHR ''n''"
    "c \<noteq> CHR ''t''" "c \<noteq> CHR ''f''"
    using c(2) by (auto simp: is_digit_def)
  have nws: "\<not> is_ws c"
    using c(2) by (auto simp: is_digit_def is_ws_def)
  have "scan_value (Suc n) (c # cs @ rest) = scan_number (c # cs @ rest)"
    by (simp add: skip_ws_nonws [OF nws] ne)
  then show ?thesis using scan_number_str_int [OF assms, of i] c(1) by simp
qed

lemma scan_value_str:
  "scan_value (Suc n) (encode_basestring_ascii s @ rest) = Some (JStr s, rest)"
  by (simp add: encode_basestring_ascii_def skip_ws_def is_ws_def scan_string_encoded map_fst_def)

lemma scan_items_join:
  assumes IH: "\<And>x n rest. x \<in> set xs \<Longrightarrow> weight x \<le> n \<Longrightarrow> follows_number rest \<Longrightarrow>
      scan_value n (json_dumps x @ rest) = Some (x, rest)"
    and "xs \<noteq> []"
    and "sum_list (map (\<lambda>x. Suc (weight x)) xs) \<le> m"
  shows "scan_items m (str_join '', '' (map json_dumps xs) @ CHR '']'' # rest) = Some (xs, rest)"
  using assms
proof (induction xs arbitrary: m)
  case Nil
  then show ?case by simp
next
  case (Cons x xs)
  from Cons.prems(3) obtain m' where m: "m = Suc m'" "weight x \<le> m'"
    "sum_list (map (\<lambda>x. Suc (weight x)) xs) \<le> m'"
    by (cases m) auto
  show ?case
  proof (cases xs)
    case Nil
    have "scan_value m' (json_dumps x @ CHR '']'' # rest) = Some (x, CHR '']'' # rest)"
      using Cons.prems(1) [of x m' "CHR '']'' # rest"] m by simp
    then show ?thesis using Nil m
      by (simp add: skip_ws_def is_ws_def del: json_dumps.simps)
  next
    case (Cons y ys)
    let ?tail = "str_join '', '' (map json_dumps xs) @ CHR '']'' # rest"
    have v: "scan_value m' (json_dumps x @ CHR '','' # CHR '' '' # ?tail) =
        Some (x, CHR '','' # CHR '' '' # ?tail)"
      using Cons.prems(1) [of x m' "CHR '','' # CHR '' '' # ?tail"] m by simp
    have r: "scan_items m' ?tail = Some (xs, rest)"
      using Cons.IH [of m'] Cons.prems(1) m Cons by simp
    show ?thesis
      using v r Cons m
      by (simp add: skip_ws_def is_ws_def scan_items_space cons_fst_def del: json_dumps.simps)
  qed
qed

lemma scan_members_join:
  assumes IH: "\<And>kv n rest. kv \<in> set kvs \<Longrightarrow> weight (snd kv) \<le> n \<Longrightarrow> follows_number rest \<Longrightarrow>
      scan_value n (json_dumps (snd kv) @ rest) = Some (snd kv, rest)"
    and "kvs \<noteq> []"
    and "sum_list (map (\<lambda>kv. Suc (weight (snd kv))) kvs) \<le> m"
  shows "scan_members m
      (str_join '', '' (map (\<lambda>kv. encode_basestring_ascii (fst kv) @ '': '' @ json_dumps (snd kv)) kvs)
        @ CHR ''}'' # rest) = Some (kvs, rest)"
  using assms
proof (induction kvs arbitrary: m)
  case Nil
  then show ?case by simp
next
  case (Cons kv kvs)
  obtain k v where kv: "kv = (k, v)" by (cases kv)
  from Cons.prems(3) obtain m' where m: "m = Suc m'" "weight v \<le> m'"
    "sum_list (map (\<lambda>kv. Suc (weight (snd kv))) kvs) \<le> m'"
    by (cases m) (auto simp: kv)
  have key: "\<And>t. scan_string (concat (map escape_char k) @ CHR 0x22 # t) = Some (k, t)"
    by (rule scan_string_encoded)
  show ?case
  proof (cases kvs)
    case Nil
    have "scan_value m' (CHR '' '' # json_dumps v @ CHR ''}'' # rest) = Some (v, CHR ''}'' # rest)"
      using Cons.prems(1) [of kv m' "CHR ''}'' # rest"] m kv by (simp add: scan_value_space)
    then show ?thesis using Nil m kv key
      by (simp add: skip_ws_def is_ws_def encode_basestring_ascii_def del: json_dumps.simps)
  next
    case (Cons kv' kvs')
    let ?item = "\<lambda>kv. encode_basestring_ascii (fst kv) @ '': '' @ json_dumps (snd kv)"
    let ?tail = "str_join '', '' (map ?item kvs) @ CHR ''}'' # rest"
    have v: "scan_value m' (CHR '' '' # json_dumps v @ CHR '','' # CHR '' '' # ?tail) =
        Some (v, CHR '','' # CHR '' '' # ?tail)"
      using Cons.prems(1) [of kv m' "CHR '','' # CHR '' '' # ?tail"] m kv
      by (simp add: scan_value_space)
    have r: "scan_members m' ?tail = Some (kvs, rest)"
      using Cons.IH [of m'] Cons.prems(1) m Cons by simp
    show ?thesis
      using v r Cons m kv key
      by (simp add: skip_ws_def is_ws_def scan_members_space cons_fst_def
          encode_basestring_ascii_def del: json_dumps.simps)
  qed
qed

lemma scan_value_array:
  "value_start c \<Longrightarrow>
   scan_value (Suc n) (CHR ''['' # c # cs) = map_fst JArr (scan_items n (c # cs))"
  by (simp add: skip_ws_def is_ws_def value_start_def)

lemma scan_value_object:
  "scan_value (Suc n) (CHR ''{'' # CHR 0x22 # cs) =
     map_fst (\<lambda>ps. JObj (dict_of_pairs ps)) (scan_members n (CHR 0x22 # cs))"
  by (simp add: skip_ws_def is_ws_def)

lemma dict_of_pairs_from:
  "distinct (map fst (d @ kvs)) \<Longrightarrow>
   foldl (\<lambda>d kv. dict_set d (fst kv) (snd kv)) d kvs = d @ kvs"
proof (induction kvs arbitrary: d)
  case Nil
  then show ?case by simp
next
  case (Cons kv kvs)
  have "fst kv \<notin> fst ` set d" using Cons.prems by auto
  then have "dict_set d (fst kv) (snd kv) = d @ [kv]"
    by (simp add: dict_set_def dict_contains_def map_of_eq_None_iff)
  then show ?case using Cons.IH [of "d @ [kv]"] Cons.prems by simp
qed

lemma dict_of_pairs_distinct: "distinct (map fst kvs) \<Longrightarrow> dict_of_pairs kvs = kvs"
  using dict_of_pairs_from [of "[]" kvs] by (simp add: dict_of_pairs_def)

lemma str_join_head:
  "str_join sep (x # xs) = x @ (if xs = [] then [] else sep @ str_join sep xs)"
  by (cases xs) simp_all

lemma scan_value_dumps:
  "keys_distinct j \<Longrightarrow> weight j \<le> n \<Longrightarrow> follows_number rest \<Longrightarrow>
   scan_value n (json_dumps j @ rest) = Some (j, rest)"
proof (induction j arbitrary: n rest)
  case JNull
  then obtain n' where "n = Suc n'" by (cases n) auto
  then show ?case using scan_value_null [of n' rest] by simp
next
  case (JBool b)
  then obtain n' where "n = Suc n'" by (cases n) auto
  then show ?case using scan_value_bool [of n' b rest] by simp
next
  case (JInt i)
  then obtain n' where "n = Suc n'" by (cases n) auto
  then show ?case using scan_value_int [OF JInt.prems(3), of n' i] by simp
next
  case (JStr s)
  then obtain n' where "n = Suc n'" by (cases n) auto
  then show ?case using scan_value_str [of n' s rest] by simp
next
  case (JArr xs)
  from JArr.prems(2) obtain n' where n: "n = Suc n'"
    "sum_list (map (\<lambda>x. Suc (weight x)) xs) \<le> n'"
    by (cases n) auto
  show ?case
  proof (cases xs)
    case Nil
    then show ?thesis using n by (simp add: skip_ws_def is_ws_def)
  next
    case (Cons x xs')
    have elems: "\<And>y m r. y \<in> set xs \<Longrightarrow> weight y \<le> m \<Longrightarrow> follows_number r \<Longrightarrow>
        scan_value m (json_dumps y @ r) = Some (y, r)"
      using JArr.IH JArr.prems(1) by (simp add: list_all_iff)
    have items: "scan_items n' (str_join '', '' (map json_dumps xs) @ CHR '']'' # rest) =
        Some (xs, rest)"
      using scan_items_join [of xs n' rest] elems Cons n by blast
    obtain c cs where c: "json_dumps x = c # cs" "value_start c"
      using dumps_head by blast
    then obtain t where t: "str_join '', '' (map json_dumps xs) @ CHR '']'' # rest = c # t"
      using Cons by (simp add: str_join_head del: json_dumps.simps)
    have "scan_value (Suc n') (CHR ''['' # c # t) = Some (JArr xs, rest)"
      using scan_value_array [OF c(2), of n' t] items t by (simp add: map_fst_def)
    then show ?thesis using n t by simp
  qed
next
  case (JObj kvs)
  from JObj.prems(2) obtain n' where n: "n = Suc n'"
    "sum_list (map (\<lambda>kv. Suc (weight (snd kv))) kvs) \<le> n'"
    by (cases n) auto
  let ?item = "\<lambda>kv. encode_basestring_ascii (fst kv) @ '': '' @ json_dumps (snd kv)"
  show ?case
  proof (cases kvs)
    case Nil
    then show ?thesis using n by (simp add: skip_ws_def is_ws_def dict_of_pairs_def)
  next
    case (Cons kv kvs')
    have elems: "\<And>y m r. y \<in> set kvs \<Longrightarrow> weight (snd y) \<le> m \<Longrightarrow> follows_number r \<Longrightarrow>
        scan_value m (json_dumps (snd y) @ r) = Some (snd y, r)"
    proof -
      fix y :: "string \<times> json" and m r
      assume y: "y \<in> set kvs" and w: "weight (snd y) \<le> m" and f: "follows_number r"
      obtain k v where kv: "y = (k, v)" by (cases y)
      have "keys_distinct v" using JObj.prems(1) y kv by (auto simp: list_all_iff)
      then show "scan_value m (json_dumps (snd y) @ r) = Some (snd y, r)"
        using JObj.IH [of y v m r] y kv w f by simp
    qed
    have members: "scan_members n' (str_join '', '' (map ?item kvs) @ CHR ''}'' # rest) =
        Some (kvs, rest)"
      using scan_members_join [of kvs n' rest] elems Cons n by blast
    obtain t where t: "str_join '', '' (map ?item kvs) @ CHR ''}'' # rest = CHR 0x22 # t"
      using Cons by (simp add: str_join_head encode_basestring_ascii_def del: json_dumps.simps)
    have d: "dict_of_pairs kvs = kvs"
      using JObj.prems(1) by (simp add: dict_of_pairs_distinct)
    have "scan_value (Suc n') (CHR ''{'' # CHR 0x22 # t) = Some (JObj kvs, rest)"
      using scan_value_object [of n' t] members t d by (simp add: map_fst_def)
    then show ?thesis using n t by simp
  qed
qed

lemma length_str_join_bound:
  assumes "\<And>x. x \<in> set xs \<Longrightarrow> w x \<le> length (f x)"
  shows "sum_list (map (\<lambda>x. Suc (w x)) xs) \<le> Suc (length (str_join '', '' (map f xs)))"
  using assms
proof (induction xs)
  case Nil
  then show ?case by simp
next
  case (Cons x xs)
  have x: "w x \<le> length (f x)" using Cons.prems by simp
  have r: "sum_list (map (\<lambda>x. Suc (w x)) xs) \<le> Suc (length (str_join '', '' (map f xs)))"
    using Cons.IH Cons.prems by simp
  show ?case
  proof (cases xs)
    case Nil
    then show ?thesis using x by simp
  next
    case (Cons y ys)
    then show ?thesis using x r by simp
  qed
qed

lemma weight_le_length: "weight j \<le> length (json_dumps j)"
proof (induction j)
  case (JArr xs)
  have "sum_list (map (\<lambda>x. Suc (weight x)) xs) \<le>
      Suc (length (str_join '', '' (map json_dumps xs)))"
    using length_str_join_bound [of xs weight json_dumps] JArr.IH by blast
  then show ?case by simp
next
  case (JObj kvs)
  let ?item = "\<lambda>kv. encode_basestring_ascii (fst kv) @ '': '' @ json_dumps (snd kv)"
  have "\<And>kv. kv \<in> set kvs \<Longrightarrow> weight (snd kv) \<le> length (?item kv)"
  proof -
    fix kv :: "string \<times> json"
    assume m: "kv \<in> set kvs"
    obtain k v where kv: "kv = (k, v)" by (cases kv)
    have "weight v \<le> length (json_dumps v)" using JObj.IH [of kv v] m kv by simp
    then show "weight (snd kv) \<le> length (?item kv)" using kv by simp
  qed
  then have "sum_list (map (\<lambda>kv. Suc (weight (snd kv))) kvs) \<le>
      Suc (length (str_join '', '' (map ?item kvs)))"
    using length_str_join_bound [of kvs "\<lambda>kv. weight (snd kv)" ?item] by blast
  then show ?case by simp
next
  case (JInt i)
  obtain c cs where "str_int i = c # cs" using str_int_head by blast
  then show ?case by simp
qed (simp_all add: encode_basestring_ascii_def)

lemma follows_number_Nil: "follows_number []"
  by (simp add: follows_number_def)

lemma json_decode_dumps: "keys_distinct j \<Longrightarrow> json_decode (json_dumps j) = Inr j"
proof -
  assume k: "keys_distinct j"
  have "weight j \<le> Suc (length (json_dumps j))"
    using weight_le_length [of j] by simp
  then have "scan_value (Suc (length (json_dumps j))) (json_dumps j @ []) = Some (j, [])"
    using scan_value_dumps [OF k _ follows_number_Nil] by blast
  then show ?thesis by (simp add: json_decode_def skip_ws_def del: json_dumps.simps)
qed

subsection \<open>Validation of conforming objects\<close>

lemma conforms_fields_keys: "conforms_fields fs ob \<Longrightarrow> fst ` set ob \<subseteq> fst ` set fs"
proof (induction fs arbitrary: ob)
  case Nil
  then show ?case by simp
next
  case (Cons f fs)
  show ?case
  proof (cases ob)
    case Nil
    then show ?thesis by simp
  next
    case (Cons kv ob')
    show ?thesis
    proof (cases "fst kv = fst f")
      case True
      then have "conforms_fields fs ob'" using Cons.prems Cons by simp
      then have "fst ` set ob' \<subseteq> fst ` set fs" by (rule Cons.IH)
      then show ?thesis using Cons True by auto
    next
      case False
      then have "conforms_fields fs ob" using Cons.prems Cons by simp
      then have "fst ` set ob \<subseteq> fst ` set fs" by (rule Cons.IH)
      then show ?thesis by auto
    qed
  qed
qed

lemma validate_conforming:
  "(wf_type t \<longrightarrow> conforms_value t v \<longrightarrow> validate_value t v = Inr v)"
  "(wf_type t' \<longrightarrow> conforms_items t' xs \<longrightarrow> validate_items t' xs = Inr xs)"
  "(wf_fields fs \<longrightarrow> conforms_fields fs ob \<longrightarrow>
      (\<forall>kvs. (\<forall>n\<in>fst ` set fs. map_of kvs n = map_of ob n) \<longrightarrow>
         validate_fields fs kvs = Inr ob))"
proof (induction t v and t' xs and fs ob rule: conforms_value_conforms_items_conforms_fields.induct)
  case (1 j)
  then show ?case by (cases j) simp_all
next
  case (2 j)
  then show ?case by (cases j) simp_all
next
  case (3 j)
  then show ?case by (cases j) simp_all
next
  case (4 t j)
  then show ?case by (cases j) simp_all
next
  case (5 fs j)
  show ?case
  proof (cases j)
    case (JObj ob)
    show ?thesis
    proof (intro impI)
      assume wf: "wf_type (TObject fs)" and c: "conforms_value (TObject fs) j"
      have "validate_fields fs ob = Inr ob"
        using 5 [OF JObj] wf c JObj by simp
      then show "validate_value (TObject fs) j = Inr j" using JObj by simp
    qed
  qed simp_all
next
  case (6 t)
  then show ?case by simp
next
  case (7 t x xs)
  then show ?case by simp
next
  case (8 ob)
  then show ?case by simp
next
  case (9 f fs ob)
  show ?case
  proof (intro impI allI)
    fix kvs
    assume wf: "wf_fields (f # fs)" and c: "conforms_fields (f # fs) ob"
      and agree: "\<forall>n\<in>fst ` set (f # fs). map_of kvs n = map_of ob n"
    have wfs: "wf_fields fs" and wft: "wf_type (fst (snd f))" and fresh: "fst f \<notin> fst ` set fs"
      using wf by simp_all
    show "validate_fields (f # fs) kvs = Inr ob"
    proof (cases ob)
      case Nil
      have opt: "\<not> snd (snd f)" and rest: "conforms_fields fs []" using c Nil by simp_all
      have "map_of kvs (fst f) = None" using agree Nil by simp
      moreover have "validate_fields fs kvs = Inr []"
        using 9(1) [OF Nil] wfs rest agree Nil by simp
      ultimately show ?thesis using opt Nil by simp
    next
      case (Cons kv ob')
      show ?thesis
      proof (cases "fst kv = fst f")
        case True
        have cv: "conforms_value (fst (snd f)) (snd kv)" and rest: "conforms_fields fs ob'"
          using c Cons True by simp_all
        have look: "map_of kvs (fst f) = Some (snd kv)"
          using agree Cons True by (cases kv) simp
        have val: "validate_value (fst (snd f)) (snd kv) = Inr (snd kv)"
          using 9(2) [OF Cons True] wft cv by simp
        have "\<forall>n\<in>fst ` set fs. map_of kvs n = map_of ob' n"
        proof
          fix n assume n: "n \<in> fst ` set fs"
          then have "n \<noteq> fst kv" using fresh True by metis
          then show "map_of kvs n = map_of ob' n"
            using agree n Cons by (cases kv) auto
        qed
        then have "validate_fields fs kvs = Inr ob'"
          using 9(3) [OF Cons True] wfs rest by simp
        then show ?thesis using look val Cons True by (cases kv) simp
      next
        case False
        have opt: "\<not> snd (snd f)" and rest: "conforms_fields fs ob"
          using c Cons False by simp_all
        have "fst f \<notin> fst ` set ob"
          using conforms_fields_keys [OF rest] fresh by auto
        then have "map_of ob (fst f) = None" by (simp add: map_of_eq_None_iff)
        then have none: "map_of kvs (fst f) = None" using agree by simp
        have "validate_fields fs kvs = Inr ob"
          using 9(4) [OF Cons False] wfs rest agree by simp
        then show ?thesis using none opt by simp
      qed
    qed
  qed
qed

lemma conforms_keys_distinct:
  "(wf_type t \<longrightarrow> conforms_value t v \<longrightarrow> keys_distinct v)"
  "(wf_type t' \<longrightarrow> conforms_items t' xs \<longrightarrow> list_all keys_distinct xs)"
  "(wf_fields fs \<longrightarrow> conforms_fields fs ob \<longrightarrow>
      distinct (map fst ob) \<and> list_all (\<lambda>kv. keys_distinct (snd kv)) ob)"
proof (induction t v and t' xs and fs ob rule: conforms_value_conforms_items_conforms_fields.induct)
  case (1 j)
  then show ?case by (cases j) simp_all
next
  case (2 j)
  then show ?case by (cases j) simp_all
next
  case (3 j)
  then show ?case by (cases j) simp_all
next
  case (4 t j)
  then show ?case by (cases j) simp_all
next
  case (5 fs j)
  then show ?case by (cases j) simp_all
next
  case (6 t)
  then show ?case by simp
next
  case (7 t x xs)
  then show ?case by simp
next
  case (8 ob)
  then show ?case by simp
next
  case (9 f fs ob)
  show ?case
  proof (intro impI)
    assume wf: "wf_fields (f # fs)" and c: "conforms_fields (f # fs) ob"
    have wfs: "wf_fields fs" and wft: "wf_type (fst (snd f))" and fresh: "fst f \<notin> fst ` set fs"
      using wf by simp_all
    show "distinct (map fst ob) \<and> list_all (\<lambda>kv. keys_distinct (snd kv)) ob"
    proof (cases ob)
      case Nil
      then show ?thesis by simp
    next
      case (Cons kv ob')
      show ?thesis
      proof (cases "fst kv = fst f")
        case True
        have cv: "conforms_value (fst (snd f)) (snd kv)" and rest: "conforms_fields fs ob'"
          using c Cons True by simp_all
        have "fst kv \<notin> fst ` set ob'"
          using conforms_fields_keys [OF rest] fresh True by auto
        moreover have "keys_distinct (snd kv)"
          using 9(2) [OF Cons True] wft cv by simp
        moreover have "distinct (map fst ob') \<and> list_all (\<lambda>kv. keys_distinct (snd kv)) ob'"
          using 9(3) [OF Cons True] wfs rest by simp
        ultimately show ?thesis using Cons by simp
      next
        case False
        have rest: "conforms_fields fs ob" using c Cons False by simp
        show ?thesis using 9(4) [OF Cons False] wfs rest by simp
      qed
    qed
  qed
qed

lemma schema_validate_conforming:
  assumes "wf_fields (schema_fields S)" and "conforms S ob"
  shows "schema_validate S (JObj ob) = Inr ob"
  using validate_conforming(3) [of "schema_fields S" ob] assms
  by (simp add: schema_validate_def conforms_def)

lemma conforming_keys_distinct:
  assumes "wf_fields (schema_fields S)" and "conforms S ob"
  shows "keys_distinct (JObj ob)"
  using conforms_keys_distinct(3) [of "schema_fields S" ob] assms
  by (simp add: conforms_def)

lemma parse_obj_schema_class:
  "schema_validate S obj = Inr ob \<Longrightarrow>
   PydanticOutputParser_parse_obj env \<lparr>pydantic_object = schema_class S v2 r\<rparr> obj = Inr ob"
  by (simp add: PydanticOutputParser_parse_obj_def schema_class_def)

text \<open>
  C2. For every schema \<open>S\<close> with distinct field names and every object \<open>ob\<close> that conforms to
  \<open>S\<close>, \<open>parse\<close> on the JSON serialization of \<open>ob\<close> succeeds and returns \<open>ob\<close>, under either
  pydantic version and for a v2 as for a v1 model.
\<close>

theorem parse_round_trip:
  assumes "wf_fields (schema_fields S)" and "conforms S ob"
  shows "PydanticOutputParser_parse (standard_imports version)
           \<lparr>pydantic_object = schema_class S v2 r\<rparr> (json_dumps (JObj ob)) = Inr ob"
proof -
  have d: "json_decode (json_dumps (JObj ob)) = Inr (JObj ob)"
    using conforming_keys_distinct [OF assms] by (rule json_decode_dumps)
  have v: "schema_validate S (JObj ob) = Inr ob"
    using assms by (rule schema_validate_conforming)
  have "JsonOutputParser_parse_result (standard_imports version)
      [\<lparr>gen_text = json_dumps (JObj ob)\<rparr>] False = Inr (JObj ob)"
    by (simp add: JsonOutputParser_parse_result_def standard_imports_def d del: json_dumps.simps)
  then show ?thesis
    by (simp add: PydanticOutputParser_parse_def JsonOutputParser_parse_def
        PydanticOutputParser_parse_result_def parse_obj_schema_class [OF v]
        del: json_dumps.simps)
qed

lemma joke_wf: "wf_fields (schema_fields joke_schema)"
  by (simp add: joke_schema_def)

lemma joke_conforms:
  "conforms joke_schema
     [(''setup'', JStr ''Why''), (''punchline'', JStr ''Because''), (''tags'', JArr [JStr ''a''])]"
  by (simp add: conforms_def joke_schema_def)

lemma joke_dumps:
  \<open>json_dumps (JObj
     [(''setup'', JStr ''Why''), (''punchline'', JStr ''Because''), (''tags'', JArr [JStr ''a''])]) =
   ''{"setup": "Why", "punchline": "Because", "tags": ["a"]}''\<close>
  by code_simp

theorem parse_round_trip_witness:
  \<open>wf_fields (schema_fields joke_schema) \<and>
   conforms joke_schema
     [(''setup'', JStr ''Why''), (''punchline'', JStr ''Because''), (''tags'', JArr [JStr ''a''])] \<and>
   PydanticOutputParser_parse (standard_imports 2) joke_parser
     ''{"setup": "Why", "punchline": "Because", "tags": ["a"]}'' =
     Inr [(''setup'', JStr ''Why''), (''punchline'', JStr ''Because''), (''tags'', JArr [JStr ''a''])]\<close>
  using parse_round_trip [OF joke_wf joke_conforms, of 2 True 0] joke_wf joke_conforms
  by (simp add: joke_parser_def joke_dumps del: json_dumps.simps)

section \<open>The fuel of the decoder\<close>

text \<open>
  The fuel that \<open>json_decode\<close> gives the scanners never runs out: a scan that succeeds with
  some fuel succeeds with the fuel of \<open>json_decode\<close>, with the same result. So a text that
  \<open>json_decode\<close> rejects is rejected by the grammar of the scanners, not by the fuel.
\<close>

lemma map_fst_Some: "map_fst f a = Some (y, r) \<longleftrightarrow> (\<exists>x. a = Some (x, r) \<and> y = f x)"
  by (auto simp: map_fst_def split: option.splits)

lemma cons_fst_Some: "cons_fst x a = Some (ys, r) \<longleftrightarrow> (\<exists>xs. a = Some (xs, r) \<and> ys = x # xs)"
  by (auto simp: cons_fst_def split: option.splits)

lemma scan_items_Suc:
  "scan_items (Suc n) s = Some (vs, r) \<longleftrightarrow>
     (\<exists>v r1 c cs. scan_value n s = Some (v, r1) \<and> skip_ws r1 = c # cs \<and>
        (c = CHR '','' \<and> (\<exists>vs'. scan_items n cs = Some (vs', r) \<and> vs = v # vs') \<or>
         c = CHR '']'' \<and> vs = [v] \<and> r = cs))"
  by (auto simp: cons_fst_Some split: option.splits list.splits)

lemma scan_members_Suc:
  "scan_members (Suc n) s = Some (ps, r) \<longleftrightarrow>
     (\<exists>r0 k r1 r2 v r3 d r4.
        skip_ws s = CHR 0x22 # r0 \<and> scan_string r0 = Some (k, r1) \<and>
        skip_ws r1 = CHR '':'' # r2 \<and> scan_value n r2 = Some (v, r3) \<and>
        skip_ws r3 = d # r4 \<and>
        (d = CHR '','' \<and> (\<exists>ps'. scan_members n r4 = Some (ps', r) \<and> ps = (k, v) # ps') \<or>
         d = CHR ''}'' \<and> ps = [(k, v)] \<and> r = r4))"
  by (auto simp: cons_fst_Some split: option.splits list.splits)

lemma sv_str: "skip_ws s = CHR 0x22 # cs \<Longrightarrow> scan_value (Suc n) s = map_fst JStr (scan_string cs)"
  by simp

lemma sv_arr:
  "skip_ws s = CHR ''['' # cs \<Longrightarrow>
   scan_value (Suc n) s =
     (case skip_ws cs of
        [] \<Rightarrow> None
      | d # ds \<Rightarrow> if d = CHR '']'' then Some (JArr [], ds) else map_fst JArr (scan_items n cs))"
  by simp

lemma sv_obj:
  "skip_ws s = CHR ''{'' # cs \<Longrightarrow>
   scan_value (Suc n) s =
     (case skip_ws cs of
        [] \<Rightarrow> None
      | d # ds \<Rightarrow>
          if d = CHR ''}'' then Some (JObj [], ds)
          else map_fst (\<lambda>ps. JObj (dict_of_pairs ps)) (scan_members n cs))"
  by simp

lemma sv_atom:
  "skip_ws s = c # cs \<Longrightarrow> c \<noteq> CHR 0x22 \<Longrightarrow> c \<noteq> CHR ''['' \<Longrightarrow> c \<noteq> CHR ''{'' \<Longrightarrow>
   scan_value (Suc n) s = scan_value (Suc 0) s"
  by simp

subsection \<open>More fuel changes nothing\<close>

lemma scan_mono_aux:
  "\<forall>m s. n \<le> m \<longrightarrow>
     (\<forall>x. scan_value n s = Some x \<longrightarrow> scan_value m s = Some x) \<and>
     (\<forall>x. scan_items n s = Some x \<longrightarrow> scan_items m s = Some x) \<and>
     (\<forall>x. scan_members n s = Some x \<longrightarrow> scan_members m s = Some x)"
proof (induction n)
  case 0
  show ?case by simp
next
  case (Suc n)
  show ?case
  proof (intro allI impI)
    fix m s
    assume "Suc n \<le> m"
    then obtain m' where m: "m = Suc m'" and le: "n \<le> m'" by (cases m) auto
    have items: "\<And>t x. scan_items n t = Some x \<Longrightarrow> scan_items m' t = Some x"
      using Suc le by blast
    have members: "\<And>t x. scan_members n t = Some x \<Longrightarrow> scan_members m' t = Some x"
      using Suc le by blast
    have val: "\<And>t x. scan_value n t = Some x \<Longrightarrow> scan_value m' t = Some x"
      using Suc le by blast
    have v: "scan_value m s = Some x" if h: "scan_value (Suc n) s = Some x" for x
    proof (cases "skip_ws s")
      case Nil
      then show ?thesis using h by simp
    next
      case (Cons c cs)
      obtain y r where x: "x = (y, r)" by (cases x)
      consider (str) "c = CHR 0x22" | (arr) "c = CHR ''[''" | (obj) "c = CHR ''{''"
        | (atom) "c \<noteq> CHR 0x22" "c \<noteq> CHR ''[''" "c \<noteq> CHR ''{''"
        by blast
      then show ?thesis
      proof cases
        case str
        then show ?thesis using h Cons m by (simp only: sv_str)
      next
        case arr
        show ?thesis
        proof (cases "skip_ws cs")
          case Nil
          then show ?thesis using h Cons arr by (simp add: sv_arr)
        next
          case (Cons d ds)
          note inner = Cons
          show ?thesis
          proof (cases "d = CHR '']''")
            case True
            then show ?thesis using h \<open>skip_ws s = c # cs\<close> arr inner m by (simp add: sv_arr)
          next
            case False
            then have "map_fst JArr (scan_items n cs) = Some (y, r)"
              using h \<open>skip_ws s = c # cs\<close> arr inner x by (simp add: sv_arr)
            then obtain vs where "scan_items n cs = Some (vs, r)" "y = JArr vs"
              by (auto simp: map_fst_Some)
            then have "map_fst JArr (scan_items m' cs) = Some (y, r)"
              using items by (auto simp: map_fst_Some)
            then show ?thesis
              using False \<open>skip_ws s = c # cs\<close> arr inner x m by (simp add: sv_arr)
          qed
        qed
      next
        case obj
        show ?thesis
        proof (cases "skip_ws cs")
          case Nil
          then show ?thesis using h Cons obj by (simp add: sv_obj)
        next
          case (Cons d ds)
          note inner = Cons
          show ?thesis
          proof (cases "d = CHR ''}''")
            case True
            then show ?thesis using h \<open>skip_ws s = c # cs\<close> obj inner m by (simp add: sv_obj)
          next
            case False
            then have "map_fst (\<lambda>ps. JObj (dict_of_pairs ps)) (scan_members n cs) = Some (y, r)"
              using h \<open>skip_ws s = c # cs\<close> obj inner x by (simp add: sv_obj)
            then obtain ps where "scan_members n cs = Some (ps, r)" "y = JObj (dict_of_pairs ps)"
              by (auto simp: map_fst_Some)
            then have "map_fst (\<lambda>ps. JObj (dict_of_pairs ps)) (scan_members m' cs) = Some (y, r)"
              using members by (auto simp: map_fst_Some)
            then show ?thesis
              using False \<open>skip_ws s = c # cs\<close> obj inner x m by (simp add: sv_obj)
          qed
        qed
      next
        case atom
        have "scan_value (Suc n) s = scan_value (Suc 0) s" using Cons atom by (rule sv_atom)
        moreover have "scan_value (Suc m') s = scan_value (Suc 0) s" using Cons atom by (rule sv_atom)
        ultimately show ?thesis using h m by simp
      qed
    qed
    have i: "scan_items m s = Some x" if h: "scan_items (Suc n) s = Some x" for x
    proof -
      obtain vs r where x: "x = (vs, r)" by (cases x)
      show ?thesis
        using h val items unfolding x m scan_items_Suc by blast
    qed
    have mm: "scan_members m s = Some x" if h: "scan_members (Suc n) s = Some x" for x
    proof -
      obtain ps r where x: "x = (ps, r)" by (cases x)
      show ?thesis
        using h val members unfolding x m scan_members_Suc by blast
    qed
    show "(\<forall>x. scan_value (Suc n) s = Some x \<longrightarrow> scan_value m s = Some x) \<and>
          (\<forall>x. scan_items (Suc n) s = Some x \<longrightarrow> scan_items m s = Some x) \<and>
          (\<forall>x. scan_members (Suc n) s = Some x \<longrightarrow> scan_members m s = Some x)"
      using v i mm by blast
  qed
qed

lemma scan_value_mono: "scan_value n s = Some x \<Longrightarrow> n \<le> m \<Longrightarrow> scan_value m s = Some x"
  using scan_mono_aux by blast

lemma scan_items_mono: "scan_items n s = Some x \<Longrightarrow> n \<le> m \<Longrightarrow> scan_items m s = Some x"
  using scan_mono_aux by blast

lemma scan_members_mono: "scan_members n s = Some x \<Longrightarrow> n \<le> m \<Longrightarrow> scan_members m s = Some x"
  using scan_mono_aux by blast

subsection \<open>The fuel a scan takes is at most the length of what it reads\<close>

lemma skip_ws_length: "length (skip_ws s) \<le> length s"
  by (simp add: skip_ws_def length_dropWhile_le)

lemma skip_ws_Cons_length: "skip_ws s = c # cs \<Longrightarrow> length cs < length s"
  using skip_ws_length [of s] by simp

lemma scan_string_shorter: "scan_string cs = Some (x, r) \<Longrightarrow> length r < length cs"
proof (induction cs arbitrary: x rule: scan_string.induct)
  case 1
  then show ?case by simp
next
  case (2 c cs)
  show ?case
  proof (cases "c = CHR 0x22")
    case True
    then show ?thesis using "2.prems" by simp
  next
    case nq: False
    show ?thesis
    proof (cases "c = CHR 0x5C")
      case False
      then obtain xs where xs: "scan_string cs = Some (xs, r)" and c: "\<not> (of_char c :: nat) < 32"
        using "2.prems" nq by (auto simp: cons_fst_Some split: if_splits)
      have "length r < length cs"
        using "2.IH"(3) [OF nq False c xs] .
      then show ?thesis by simp
    next
      case True
      show ?thesis
      proof (cases cs)
        case Nil
        then show ?thesis using "2.prems" nq True by simp
      next
        case (Cons e t)
        show ?thesis
        proof (cases "e = CHR ''u''")
          case False
          then obtain y xs where y: "unescape e = Some y" "scan_string t = Some (xs, r)"
            using "2.prems" nq True Cons
            by (auto simp: cons_fst_Some split: option.splits)
          have "length r < length t"
            using "2.IH"(2) [OF nq True Cons False y(1) y(2)] .
          then show ?thesis using Cons by simp
        next
          case u: True
          then obtain w x' y z t' n xs where t: "t = w # x' # y # z # t'"
            "hex4 w x' y z = Some n" "n < 256" "scan_string t' = Some (xs, r)"
            using "2.prems" nq True Cons
            by (auto simp: cons_fst_Some split: option.splits list.splits if_splits)
          have "length r < length t'"
            using "2.IH"(1) [OF nq True Cons u _ _ _ _ t(2) t(3) t(4)] t(1) by simp
          then show ?thesis using Cons t(1) by simp
        qed
      qed
    qed
  qed
qed

lemma scan_number_shorter: "scan_number s = Some (v, r) \<Longrightarrow> length r < length s"
proof -
  have d: "scan_digits t = Some (n, r) \<Longrightarrow> length r < length t" for t n
    using length_dropWhile_le [of is_digit "tl t"]
    by (cases t) (auto simp: scan_digits_def split: if_splits)
  assume "scan_number s = Some (v, r)"
  then show ?thesis
    using d by (cases s) (fastforce simp: scan_number_def split: if_splits option.splits)+
qed

lemma scan_atom_shorter:
  assumes "skip_ws s = c # cs" and "c \<noteq> CHR 0x22" and "c \<noteq> CHR ''[''" and "c \<noteq> CHR ''{''"
    and "scan_value (Suc 0) s = Some (v, r)"
  shows "length r < length s"
proof -
  have "length r < length (c # cs)"
    using assms scan_number_shorter [of "c # cs" v r]
    by (auto split: if_splits)
  then show ?thesis using skip_ws_length [of s] assms(1) by simp
qed

lemma scan_fuel_aux:
  "\<forall>s.
     (\<forall>v r. scan_value n s = Some (v, r) \<longrightarrow>
        length r < length s \<and> scan_value (length s - length r) s = Some (v, r)) \<and>
     (\<forall>vs r. scan_items n s = Some (vs, r) \<longrightarrow>
        length r < length s \<and> scan_items (length s - length r) s = Some (vs, r)) \<and>
     (\<forall>ps r. scan_members n s = Some (ps, r) \<longrightarrow>
        length r < length s \<and> scan_members (length s - length r) s = Some (ps, r))"
proof (induction n)
  case 0
  show ?case by simp
next
  case (Suc n)
  have val: "\<And>t v r. scan_value n t = Some (v, r) \<Longrightarrow>
      length r < length t \<and> scan_value (length t - length r) t = Some (v, r)"
    using Suc by blast
  have items: "\<And>t vs r. scan_items n t = Some (vs, r) \<Longrightarrow>
      length r < length t \<and> scan_items (length t - length r) t = Some (vs, r)"
    using Suc by blast
  have members: "\<And>t ps r. scan_members n t = Some (ps, r) \<Longrightarrow>
      length r < length t \<and> scan_members (length t - length r) t = Some (ps, r)"
    using Suc by blast
  show ?case
  proof (intro allI conjI impI)
    fix s v r
    assume h: "scan_value (Suc n) s = Some (v, r)"
    show "length r < length s" and "scan_value (length s - length r) s = Some (v, r)"
    proof -
      have "length r < length s \<and> scan_value (length s - length r) s = Some (v, r)"
      proof (cases "skip_ws s")
        case Nil
        then show ?thesis using h by simp
      next
        case (Cons c cs)
        have lcs: "length cs < length s" using Cons by (rule skip_ws_Cons_length)
        consider (str) "c = CHR 0x22" | (arr) "c = CHR ''[''" | (obj) "c = CHR ''{''"
          | (atom) "c \<noteq> CHR 0x22" "c \<noteq> CHR ''[''" "c \<noteq> CHR ''{''"
          by blast
        then show ?thesis
        proof cases
          case str
          then have sk: "skip_ws s = CHR 0x22 # cs" using Cons by simp
          then have m: "map_fst JStr (scan_string cs) = Some (v, r)"
            using h by (simp only: sv_str)
          then obtain x where "scan_string cs = Some (x, r)" by (auto simp: map_fst_Some)
          then have lr: "length r < length s" using scan_string_shorter lcs by fastforce
          then obtain k where k: "length s - length r = Suc k" by (cases "length s - length r") auto
          have "scan_value (Suc k) s = Some (v, r)" using m
            by (simp add: sv_str [OF sk] del: scan_value.simps)
          then show ?thesis using lr k by simp
        next
          case arr
          then have sk: "skip_ws s = CHR ''['' # cs" using Cons by simp
          show ?thesis
          proof (cases "skip_ws cs")
            case Nil
            then show ?thesis using h sk by (simp add: sv_arr)
          next
            case (Cons d ds)
            have lds: "length ds < length cs" using Cons by (rule skip_ws_Cons_length)
            show ?thesis
            proof (cases "d = CHR '']''")
              case True
              then have r: "v = JArr []" "r = ds" using h sk Cons by (simp_all add: sv_arr)
              have lr: "length r < length s" using r lds lcs by simp
              then obtain k where k: "length s - length r = Suc k"
                by (cases "length s - length r") auto
              have "scan_value (Suc k) s = Some (v, r)" using r True Cons
                by (simp add: sv_arr [OF sk] del: scan_value.simps)
              then show ?thesis using lr k by simp
            next
              case False
              then have "map_fst JArr (scan_items n cs) = Some (v, r)"
                using h sk Cons by (simp add: sv_arr)
              then obtain vs where vs: "scan_items n cs = Some (vs, r)" "v = JArr vs"
                by (auto simp: map_fst_Some)
              have i: "length r < length cs" "scan_items (length cs - length r) cs = Some (vs, r)"
                using items [OF vs(1)] by simp_all
              have lr: "length r < length s" using i(1) lcs by simp
              then obtain k where k: "length s - length r = Suc k"
                by (cases "length s - length r") auto
              have "length cs - length r \<le> k" using k lcs by simp
              then have "scan_items k cs = Some (vs, r)" using i(2) scan_items_mono by blast
              then have "scan_value (Suc k) s = Some (v, r)" using vs(2) False Cons
                by (simp add: sv_arr [OF sk] map_fst_def del: scan_value.simps)
              then show ?thesis using lr k by simp
            qed
          qed
        next
          case obj
          then have sk: "skip_ws s = CHR ''{'' # cs" using Cons by simp
          show ?thesis
          proof (cases "skip_ws cs")
            case Nil
            then show ?thesis using h sk by (simp add: sv_obj)
          next
            case (Cons d ds)
            have lds: "length ds < length cs" using Cons by (rule skip_ws_Cons_length)
            show ?thesis
            proof (cases "d = CHR ''}''")
              case True
              then have r: "v = JObj []" "r = ds" using h sk Cons by (simp_all add: sv_obj)
              have lr: "length r < length s" using r lds lcs by simp
              then obtain k where k: "length s - length r = Suc k"
                by (cases "length s - length r") auto
              have "scan_value (Suc k) s = Some (v, r)" using r True Cons
                by (simp add: sv_obj [OF sk] del: scan_value.simps)
              then show ?thesis using lr k by simp
            next
              case False
              then have "map_fst (\<lambda>ps. JObj (dict_of_pairs ps)) (scan_members n cs) = Some (v, r)"
                using h sk Cons by (simp add: sv_obj)
              then obtain ps where ps: "scan_members n cs = Some (ps, r)"
                "v = JObj (dict_of_pairs ps)"
                by (auto simp: map_fst_Some)
              have i: "length r < length cs"
                "scan_members (length cs - length r) cs = Some (ps, r)"
                using members [OF ps(1)] by simp_all
              have lr: "length r < length s" using i(1) lcs by simp
              then obtain k where k: "length s - length r = Suc k"
                by (cases "length s - length r") auto
              have "length cs - length r \<le> k" using k lcs by simp
              then have "scan_members k cs = Some (ps, r)" using i(2) scan_members_mono by blast
              then have "scan_value (Suc k) s = Some (v, r)" using ps(2) False Cons
                by (simp add: sv_obj [OF sk] map_fst_def del: scan_value.simps)
              then show ?thesis using lr k by simp
            qed
          qed
        next
          case atom
          have e: "scan_value (Suc n) s = scan_value (Suc 0) s" using Cons atom by (rule sv_atom)
          then have h0: "scan_value (Suc 0) s = Some (v, r)" using h by simp
          have lr: "length r < length s" using scan_atom_shorter [OF Cons atom h0] .
          then obtain k where k: "length s - length r = Suc k"
            by (cases "length s - length r") auto
          have "scan_value (Suc k) s = scan_value (Suc 0) s" using Cons atom by (rule sv_atom)
          then show ?thesis using lr h0 k by simp
        qed
      qed
      then show "length r < length s" and "scan_value (length s - length r) s = Some (v, r)"
        by simp_all
    qed
  next
    fix s vs r
    assume h: "scan_items (Suc n) s = Some (vs, r)"
    then obtain v r1 c cs where a: "scan_value n s = Some (v, r1)" "skip_ws r1 = c # cs"
      and b: "c = CHR '','' \<and> (\<exists>vs'. scan_items n cs = Some (vs', r) \<and> vs = v # vs') \<or>
              c = CHR '']'' \<and> vs = [v] \<and> r = cs"
      unfolding scan_items_Suc by blast
    have v: "length r1 < length s" "scan_value (length s - length r1) s = Some (v, r1)"
      using val [OF a(1)] by simp_all
    have lcs: "length cs < length r1" using a(2) by (rule skip_ws_Cons_length)
    have "length r < length s \<and> scan_items (length s - length r) s = Some (vs, r)"
      using b
    proof (elim disjE conjE exE)
      fix vs'
      assume c: "c = CHR '',''" and r: "scan_items n cs = Some (vs', r)" and e: "vs = v # vs'"
      have i: "length r < length cs" "scan_items (length cs - length r) cs = Some (vs', r)"
        using items [OF r] by simp_all
      have lr: "length r < length s" using i(1) lcs v(1) by simp
      then obtain k where k: "length s - length r = Suc k"
        by (cases "length s - length r") auto
      have "length s - length r1 \<le> k" using k i(1) lcs v(1) by simp
      then have v': "scan_value k s = Some (v, r1)" using v(2) scan_value_mono by blast
      have "length cs - length r \<le> k" using k lcs v(1) by simp
      then have r': "scan_items k cs = Some (vs', r)" using i(2) scan_items_mono by blast
      have "scan_items (Suc k) s = Some (vs, r)"
        unfolding scan_items_Suc using v' r' a(2) c e by blast
      then show ?thesis using lr k by simp
    next
      assume c: "c = CHR '']''" and e: "vs = [v]" and r: "r = cs"
      have lr: "length r < length s" using r lcs v(1) by simp
      then obtain k where k: "length s - length r = Suc k"
        by (cases "length s - length r") auto
      have "length s - length r1 \<le> k" using k r lcs v(1) by simp
      then have v': "scan_value k s = Some (v, r1)" using v(2) scan_value_mono by blast
      have "scan_items (Suc k) s = Some (vs, r)"
        unfolding scan_items_Suc using v' a(2) c e r by blast
      then show ?thesis using lr k by simp
    qed
    then show "length r < length s" and "scan_items (length s - length r) s = Some (vs, r)"
      by simp_all
  next
    fix s ps r
    assume h: "scan_members (Suc n) s = Some (ps, r)"
    then obtain r0 k r1 r2 v r3 d r4 where
      a: "skip_ws s = CHR 0x22 # r0" "scan_string r0 = Some (k, r1)"
         "skip_ws r1 = CHR '':'' # r2" "scan_value n r2 = Some (v, r3)" "skip_ws r3 = d # r4"
      and b: "d = CHR '','' \<and> (\<exists>ps'. scan_members n r4 = Some (ps', r) \<and> ps = (k, v) # ps') \<or>
              d = CHR ''}'' \<and> ps = [(k, v)] \<and> r = r4"
      unfolding scan_members_Suc by blast
    have l0: "length r0 < length s" using a(1) by (rule skip_ws_Cons_length)
    have l1: "length r1 < length r0" using a(2) by (rule scan_string_shorter)
    have l2: "length r2 < length r1" using a(3) by (rule skip_ws_Cons_length)
    have v: "length r3 < length r2" "scan_value (length r2 - length r3) r2 = Some (v, r3)"
      using val [OF a(4)] by simp_all
    have l4: "length r4 < length r3" using a(5) by (rule skip_ws_Cons_length)
    have "length r < length s \<and> scan_members (length s - length r) s = Some (ps, r)"
      using b
    proof (elim disjE conjE exE)
      fix ps'
      assume c: "d = CHR '',''" and r: "scan_members n r4 = Some (ps', r)" and e: "ps = (k, v) # ps'"
      have i: "length r < length r4" "scan_members (length r4 - length r) r4 = Some (ps', r)"
        using members [OF r] by simp_all
      have lr: "length r < length s" using i(1) l0 l1 l2 v(1) l4 by simp
      then obtain f where f: "length s - length r = Suc f"
        by (cases "length s - length r") auto
      have "length r2 - length r3 \<le> f" using f l0 l1 l2 v(1) l4 i(1) by simp
      then have v': "scan_value f r2 = Some (v, r3)" using v(2) scan_value_mono by blast
      have "length r4 - length r \<le> f" using f l0 l1 l2 v(1) l4 i(1) by simp
      then have r': "scan_members f r4 = Some (ps', r)" using i(2) scan_members_mono by blast
      have "scan_members (Suc f) s = Some (ps, r)"
        unfolding scan_members_Suc using a(1) a(2) a(3) v' a(5) r' c e by blast
      then show ?thesis using lr f by simp
    next
      assume c: "d = CHR ''}''" and e: "ps = [(k, v)]" and r: "r = r4"
      have lr: "length r < length s" using r l0 l1 l2 v(1) l4 by simp
      then obtain f where f: "length s - length r = Suc f"
        by (cases "length s - length r") auto
      have "length r2 - length r3 \<le> f" using f r l0 l1 l2 v(1) l4 by simp
      then have v': "scan_value f r2 = Some (v, r3)" using v(2) scan_value_mono by blast
      have "scan_members (Suc f) s = Some (ps, r)"
        unfolding scan_members_Suc using a(1) a(2) a(3) v' a(5) c e r by blast
      then show ?thesis using lr f by simp
    qed
    then show "length r < length s" and "scan_members (length s - length r) s = Some (ps, r)"
      by simp_all
  qed
qed

lemma decode_fuel_suffices:
  "scan_value n s = Some (v, r) \<Longrightarrow> scan_value (Suc (length s)) s = Some (v, r)"
proof -
  assume h: "scan_value n s = Some (v, r)"
  then have "scan_value (length s - length r) s = Some (v, r)"
    using scan_fuel_aux [of n] by blast
  then show ?thesis
    by (rule scan_value_mono) simp
qed

lemma json_decode_rejects:
  "json_decode s = Inl e \<Longrightarrow> scan_value n s = Some (v, r) \<Longrightarrow> skip_ws r \<noteq> []"
  using decode_fuel_suffices [of n s v r]
  by (auto simp: json_decode_def split: option.splits if_splits)

end
